theory Spec2Isabelle
  imports
    Main
    "HOL-Library.Sublist"
    "HOL-Library.Multiset"
    "HOL-Library.Char_ord"
    "HOL-Library.List_Lexorder"
    "HOL-Library.Product_Lexorder"
    "HOL-Library.Monad_Syntax"
begin

section \<open>The table of import jobs\<close>

text \<open>
  The worker (\<^verbatim>\<open>apps/worker/importWorker.ts\<close>, the file
  \<^verbatim>\<open>src/unnamed/part_005\<close>) and the two HTTP handlers
  (\<^verbatim>\<open>apps/api/importacoes/route.ts\<close>, the file \<^verbatim>\<open>src/unnamed/part_000\<close>)
  share one PostgreSQL table,
  \<^verbatim>\<open>import_status\<close>. Its columns are the eleven columns of the handler's
  \<^verbatim>\<open>INSERT\<close>. The status column holds the four literals the code writes:
  \<^verbatim>\<open>'queued'\<close>, \<^verbatim>\<open>'running'\<close>, \<^verbatim>\<open>'done'\<close>, \<^verbatim>\<open>'error'\<close>.
  A table is the list of its rows; a timestamp is a number of clock ticks.
\<close>

datatype status = Queued | Running | Done | Error

type_synonym timestamp = nat

record import_row =
  import_id :: string
  distribuidora_id :: "int option"
  ano :: int
  camada :: "string option"
  status :: status
  linhas_processadas :: int
  data_inicio :: "timestamp option"
  data_fim :: "timestamp option"
  observacoes :: "string option"
  erro :: "string option"
  distribuidora_nome :: string

type_synonym import_table = "import_row list"

section \<open>Layer inference (importWorker.ts, lines 96 to 103)\<close>

text \<open>
  \<^verbatim>\<open>fs.promises.readdir(unzipDest)\<close> lists the names of the entries directly inside the
  extraction directory, in the order the file system gives them; it does not descend.
  The extracted tree is a list of entries, a directory carrying its own entries.
\<close>

datatype fs_entry = File string | Dir string "fs_entry list"

fun entry_name :: "fs_entry \<Rightarrow> string" where
  "entry_name (File n) = n"
| "entry_name (Dir n sub) = n"

definition readdir :: "fs_entry list \<Rightarrow> string list" where
  "readdir es = map entry_name es"

text \<open>
  The regular expression \<^verbatim>\<open>/UCMT|UCBT|UCAT|PONNOT/i\<close>. Under the \<^verbatim>\<open>i\<close> flag two
  characters match when their canonical forms agree; for the ASCII letters of the four
  alternatives that is equality after mapping \<^verbatim>\<open>a..z\<close> to \<^verbatim>\<open>A..Z\<close> (a
  character outside ASCII is never canonicalised to an ASCII one).
\<close>

definition layer_codes :: "string list" where
  "layer_codes = [''UCMT'', ''UCBT'', ''UCAT'', ''PONNOT'']"

definition canon :: "char \<Rightarrow> char" where
  "canon c = (if CHR ''a'' \<le> c \<and> c \<le> CHR ''z'' then char_of (of_char c - (32::nat)) else c)"

definition toUpperCase :: "string \<Rightarrow> string" where
  "toUpperCase s = map canon s"

text \<open>One alternative tried at the start of the input: the text it consumes, if it matches.\<close>

definition match_here :: "string \<Rightarrow> string \<Rightarrow> string option" where
  "match_here alt s =
     (if length alt \<le> length s \<and> map canon (take (length alt) s) = map canon alt
      then Some (take (length alt) s) else None)"

text \<open>The alternation at one position: alternatives are tried left to right.\<close>

fun match_alternatives :: "string list \<Rightarrow> string \<Rightarrow> string option" where
  "match_alternatives [] s = None"
| "match_alternatives (alt # alts) s =
     (case match_here alt s of Some m \<Rightarrow> Some m | None \<Rightarrow> match_alternatives alts s)"

text \<open>An unanchored search: positions are tried left to right; the result is the matched text.\<close>

fun regex_exec :: "string list \<Rightarrow> string \<Rightarrow> string option" where
  "regex_exec alts [] = match_alternatives alts []"
| "regex_exec alts (c # cs) =
     (case match_alternatives alts (c # cs) of
        Some m \<Rightarrow> Some m
      | None \<Rightarrow> regex_exec alts cs)"

definition regex_test :: "string list \<Rightarrow> string \<Rightarrow> bool" where
  "regex_test alts s = (regex_exec alts s \<noteq> None)"

text \<open>
  \<^verbatim>\<open>
  let camada: string | null = null;
  const hit = files.find(f => /UCMT|UCBT|UCAT|PONNOT/i.test(f));
  if (hit) {
    const m = hit.match(/(UCMT|UCBT|UCAT|PONNOT)/i);
    camada = m ? m[1].toUpperCase() : null;
  }
  \<close>
  \<^verbatim>\<open>if (hit)\<close> is false for \<^verbatim>\<open>undefined\<close> and for the empty string.
\<close>

definition infer_camada :: "string list \<Rightarrow> string option" where
  "infer_camada files =
     (case find (regex_test layer_codes) files of
        None \<Rightarrow> None
      | Some hit \<Rightarrow>
          if hit = [] then None
          else (case regex_exec layer_codes hit of
                  None \<Rightarrow> None
                | Some m \<Rightarrow> Some (toUpperCase m)))"

text \<open>
  The final write of a successful job (lines 105 to 113):
  \<^verbatim>\<open>
  UPDATE import_status
     SET status='done', camada = COALESCE($2, camada), data_fim = now(), observacoes = $3
   WHERE import_id = $1
  \<close>
  with \<^verbatim>\<open>$2\<close> the inferred layer and \<^verbatim>\<open>$3\<close> the text
  \<^verbatim>\<open>`Arquivos em: ${unzipDest}`\<close>.
\<close>

definition coalesce :: "'a option \<Rightarrow> 'a option \<Rightarrow> 'a option" where
  "coalesce a b = (case a of Some v \<Rightarrow> Some v | None \<Rightarrow> b)"

definition done_row :: "timestamp \<Rightarrow> string option \<Rightarrow> string \<Rightarrow> import_row \<Rightarrow> import_row" where
  "done_row now inferred unzipDest r =
     r\<lparr>status := Done, camada := coalesce inferred (camada r), data_fim := Some now,
       observacoes := Some (''Arquivos em: '' @ unzipDest)\<rparr>"

definition update_where_id :: "string \<Rightarrow> (import_row \<Rightarrow> import_row) \<Rightarrow> import_table \<Rightarrow> import_table" where
  "update_where_id i f tbl = map (\<lambda>r. if import_id r = i then f r else r) tbl"

definition set_done :: "timestamp \<Rightarrow> string \<Rightarrow> string option \<Rightarrow> string \<Rightarrow> import_table \<Rightarrow> import_table" where
  "set_done now i inferred unzipDest tbl = update_where_id i (done_row now inferred unzipDest) tbl"

text \<open>Lines 96 to 113 together: list the extraction directory, infer, write the outcome.\<close>

definition classify_and_finalize ::
  "timestamp \<Rightarrow> string \<Rightarrow> string \<Rightarrow> fs_entry list \<Rightarrow> import_table \<Rightarrow> import_table" where
  "classify_and_finalize now i unzipDest extracted tbl =
     set_done now i (infer_camada (readdir extracted)) unzipDest tbl"


section \<open>The claim transaction (importWorker.ts, lines 27 to 58)\<close>

text \<open>
  A job is what the claiming \<^verbatim>\<open>SELECT\<close> returns of a row:
  \<^verbatim>\<open>import_id, distribuidora_nome, ano\<close>.
\<close>

record job =
  j_import_id :: string
  j_distribuidora_nome :: string
  j_ano :: int

definition job_of :: "import_row \<Rightarrow> job" where
  "job_of r = \<lparr>j_import_id = import_id r, j_distribuidora_nome = distribuidora_nome r, j_ano = ano r\<rparr>"

text \<open>
  \<^verbatim>\<open>
  SELECT import_id, distribuidora_nome, ano FROM import_status
   WHERE status = 'queued'
   ORDER BY ano, distribuidora_nome
   FOR UPDATE SKIP LOCKED
   LIMIT $1;
  \<close>
  The rows that qualify are put in order, rows another transaction holds a row lock on
  are passed over, and the scan stops after \<^verbatim>\<open>$1\<close> rows. A row lock is named by the
  \<^verbatim>\<open>import_id\<close> of the locked row. Strings are compared byte by byte.
\<close>

definition order_key :: "import_row \<Rightarrow> int \<times> string" where
  "order_key r = (ano r, distribuidora_nome r)"

definition select_rows :: "string set \<Rightarrow> nat \<Rightarrow> import_table \<Rightarrow> import_row list" where
  "select_rows locked limit tbl =
     take limit (filter (\<lambda>r. import_id r \<notin> locked)
       (sort_key order_key (filter (\<lambda>r. status r = Queued) tbl)))"

definition select_queued :: "string set \<Rightarrow> nat \<Rightarrow> import_table \<Rightarrow> job list" where
  "select_queued locked limit tbl = map job_of (select_rows locked limit tbl)"

text \<open>The order of \<^verbatim>\<open>ORDER BY ano, distribuidora_nome\<close>, read on two jobs.\<close>

definition job_order :: "job \<Rightarrow> job \<Rightarrow> bool" where
  "job_order a b \<longleftrightarrow> j_ano a < j_ano b \<or> (j_ano a = j_ano b \<and> j_distribuidora_nome a \<le> j_distribuidora_nome b)"

text \<open>
  \<^verbatim>\<open>
  UPDATE import_status SET status='running', data_inicio = now(), erro = NULL
   WHERE import_id = $1;
  \<close>
  Inside a transaction \<^verbatim>\<open>now()\<close> is the time the transaction began.
\<close>

definition running_row :: "timestamp \<Rightarrow> import_row \<Rightarrow> import_row" where
  "running_row now r = r\<lparr>status := Running, data_inicio := Some now, erro := None\<rparr>"

definition mark_running :: "timestamp \<Rightarrow> string \<Rightarrow> import_table \<Rightarrow> import_table" where
  "mark_running now i tbl = update_where_id i (running_row now) tbl"

text \<open>
  A statement of the transaction can be refused by the server. \<open>fails k\<close> says whether
  the \<open>k\<close>-th statement the client sends in this loop iteration is refused:
  statement 0 is \<^verbatim>\<open>BEGIN\<close>, statement 1 the \<^verbatim>\<open>SELECT\<close>, then one
  \<^verbatim>\<open>UPDATE\<close> for each job, then \<^verbatim>\<open>COMMIT\<close>.

  The loop \<^verbatim>\<open>for (const j of jobs)\<close> of lines 50 to 57, on the transaction's own view of
  the table; \<open>None\<close> when an \<^verbatim>\<open>UPDATE\<close> is refused and the exception leaves the loop.
\<close>

fun mark_all :: "(nat \<Rightarrow> bool) \<Rightarrow> nat \<Rightarrow> timestamp \<Rightarrow> job list \<Rightarrow> import_table \<Rightarrow> import_table option" where
  "mark_all fails k now [] view = Some view"
| "mark_all fails k now (j # js) view =
     (if fails k then None
      else mark_all fails (Suc k) now js (mark_running now (j_import_id j) view))"

text \<open>
  The state of the transaction block of the connection \<^verbatim>\<open>client\<close> when the pool hands
  it out. A statement refused inside a transaction block leaves the block failed: the
  server has undone the transaction's writes and released its locks, and refuses every
  further statement on that connection except \<^verbatim>\<open>ROLLBACK\<close> and \<^verbatim>\<open>COMMIT\<close>.
\<close>

datatype session = Ready | FailedBlock

datatype claim_outcome = Claimed "job list" | NothingQueued | ClaimFailed

text \<open>
  Lines 27 to 58, with \<open>batch\<close> the constant \<^verbatim>\<open>BATCH\<close> (a natural number when
  \<^verbatim>\<open>WORKER_BATCH\<close> is unset or holds one). The writes of the transaction reach the
  table at \<^verbatim>\<open>COMMIT\<close>, all of them or none. The result is what the loop body has in hand after the claim, the state
  of the client's transaction block, and the table.
\<close>

definition claim_batch ::
  "(nat \<Rightarrow> bool) \<Rightarrow> string set \<Rightarrow> nat \<Rightarrow> timestamp \<Rightarrow> session \<Rightarrow> import_table
     \<Rightarrow> claim_outcome \<times> session \<times> import_table" where
  "claim_batch fails locked batch now sess tbl =
     (if sess = FailedBlock then (ClaimFailed, FailedBlock, tbl)
      else if fails 0 then (ClaimFailed, Ready, tbl)
      else if fails 1 then (ClaimFailed, FailedBlock, tbl)
      else
        let jobs = select_queued locked batch tbl in
        if jobs = [] then
          (if fails 2 then (ClaimFailed, Ready, tbl) else (NothingQueued, Ready, tbl))
        else
          (case mark_all fails 2 now jobs tbl of
             None \<Rightarrow> (ClaimFailed, FailedBlock, tbl)
           | Some view \<Rightarrow>
               if fails (2 + length jobs) then (ClaimFailed, Ready, tbl)
               else (Claimed jobs, Ready, view)))"


section \<open>Processing one claimed job (importWorker.ts, lines 61 to 122)\<close>

text \<open>
  The catalogue view \<^verbatim>\<open>dataset_url_normalized\<close>, with the columns the two queries
  of the repository read.
\<close>

record dataset_url =
  cat_id :: int
  distribuidora :: string
  cat_ano :: int
  url :: "string option"
  title :: "string option"

text \<open>
  What an awaited call can do: return, throw (reject) with a message, or never settle,
  in which case the \<^verbatim>\<open>await\<close> never resumes and no later statement of the enclosing
  function runs.
\<close>

datatype exec = Returns | Throws string | Never

datatype 'a promise = Fulfilled 'a | Rejected string | Pending

definition await :: "unit promise \<Rightarrow> exec" where
  "await p = (case p of Fulfilled v \<Rightarrow> Returns | Rejected e \<Rightarrow> Throws e | Pending \<Rightarrow> Never)"

text \<open>
  \<^verbatim>\<open>new Promise(executor)\<close> settles when the executor calls one of the two functions
  it is given. The value an executor returns is dropped; so is the promise an
  \<^verbatim>\<open>async\<close> executor returns, whether it fulfils or rejects.
\<close>

datatype settle_call = CallsResolve | CallsReject string | CallsNeither

definition new_Promise :: "settle_call \<Rightarrow> unit promise" where
  "new_Promise calls =
     (case calls of CallsResolve \<Rightarrow> Fulfilled () | CallsReject e \<Rightarrow> Rejected e | CallsNeither \<Rightarrow> Pending)"

text \<open>
  The executor of lines 81 to 89:
  \<^verbatim>\<open>
  async (resolve, reject) => {
    const ws = fs.createWriteStream(zipPath);
    const nodeReadable = ...;
    await pipeline(nodeReadable, ws);
  }
  \<close>
  Its argument is what \<^verbatim>\<open>pipeline\<close> does (\<open>None\<close>: the stream is written to the
  end; \<open>Some e\<close>: it rejects). Neither \<^verbatim>\<open>resolve\<close> nor \<^verbatim>\<open>reject\<close> occurs in
  the body.
\<close>

definition download_executor :: "string option \<Rightarrow> settle_call" where
  "download_executor pipeline_outcome =
     (case pipeline_outcome of None \<Rightarrow> CallsNeither | Some e \<Rightarrow> CallsNeither)"

record http_response =
  res_ok :: bool
  res_status :: nat
  res_body :: bool

text \<open>
  Everything outside the process that one loop iteration meets: whether the pool can
  hand out a connection, the server's refusals and the locks of other transactions
  during the claim, the transaction's
  \<^verbatim>\<open>now()\<close>, the catalogue, and for each later call what it does (an error message
  where it throws). \<open>clock i\<close> is \<^verbatim>\<open>now()\<close> at the moment the outcome of job
  \<open>i\<close> is written.
\<close>

record world =
  connect_error :: "string option"
  stmt_fails :: "nat \<Rightarrow> bool"
  locked_rows :: "string set"
  txn_now :: timestamp
  catalog :: "dataset_url list"
  catalog_error :: "string \<Rightarrow> int \<Rightarrow> string option"
  mkdir_error :: "string \<Rightarrow> string option"
  fetch_result :: "string \<Rightarrow> string + http_response"
  pipeline_error :: "string \<Rightarrow> string option"
  extract_result :: "string \<Rightarrow> string + fs_entry list"
  write_error :: "string \<Rightarrow> status \<Rightarrow> string option"
  clock :: "string \<Rightarrow> timestamp"

text \<open>
  \<^verbatim>\<open>getUrl\<close> (lines 14 to 23): the first catalogue row of the distributor and year,
  \<^verbatim>\<open>rows[0]?.url ?? null\<close>. \<open>Inl\<close> when the query rejects.
\<close>

definition getUrl :: "world \<Rightarrow> string \<Rightarrow> int \<Rightarrow> string + string option" where
  "getUrl w nome a =
     (case catalog_error w nome a of
        Some e \<Rightarrow> Inl e
      | None \<Rightarrow>
          (case filter (\<lambda>c. distribuidora c = nome \<and> cat_ano c = a) (catalog w) of
             [] \<Rightarrow> Inr None
           | c # cs \<Rightarrow> Inr (url c)))"

text \<open>Decimal text of a number, as \<^verbatim>\<open>String(n)\<close> and a template literal give it.\<close>

fun string_of_nat :: "nat \<Rightarrow> string" where
  "string_of_nat n =
     (if n < 10 then [char_of (48 + n)]
      else string_of_nat (n div 10) @ [char_of (48 + n mod 10)])"

definition string_of_int :: "int \<Rightarrow> string" where
  "string_of_int k = (if k < 0 then CHR ''-'' # string_of_nat (nat (- k)) else string_of_nat (nat k))"

text \<open>\<^verbatim>\<open>path.join\<close> on two segments that need no normalisation.\<close>

definition path_join :: "string \<Rightarrow> string \<Rightarrow> string" where
  "path_join a b = a @ ''/'' @ b"

definition error_row :: "timestamp \<Rightarrow> string \<Rightarrow> import_row \<Rightarrow> import_row" where
  "error_row now msg r = r\<lparr>status := Error, erro := Some msg, data_fim := Some now\<rparr>"

definition set_error :: "timestamp \<Rightarrow> string \<Rightarrow> string \<Rightarrow> import_table \<Rightarrow> import_table" where
  "set_error now i msg tbl = update_where_id i (error_row now msg) tbl"

text \<open>The message of line 67 (URL not found in the view), as its UTF-8 bytes.\<close>

definition url_not_found :: string where
  "url_not_found = ''URL n'' @ [char_of (0xC3::nat), char_of (0xA3::nat)] @ ''o encontrada na view''"

text \<open>
  The body of the \<^verbatim>\<open>try\<close> of lines 76 to 113: download, extract, classify, write
  \<^verbatim>\<open>done\<close>.
\<close>

definition try_download_extract :: "world \<Rightarrow> job \<Rightarrow> string \<Rightarrow> string \<Rightarrow> import_table \<Rightarrow> exec \<times> import_table" where
  "try_download_extract w j u destDir tbl =
     (let zipPath = path_join destDir (''dataset_'' @ string_of_int (j_ano j) @ ''.zip'') in
      case fetch_result w u of
        Inl e \<Rightarrow> (Throws e, tbl)
      | Inr res \<Rightarrow>
          if \<not> res_ok res then (Throws (''HTTP '' @ string_of_nat (res_status res)), tbl)
          else if \<not> res_body res then (Throws ''Resposta sem corpo'', tbl)
          else
            (case await (new_Promise (download_executor (pipeline_error w zipPath))) of
               Never \<Rightarrow> (Never, tbl)
             | Throws e \<Rightarrow> (Throws e, tbl)
             | Returns \<Rightarrow>
                 (let unzipDest = path_join destDir ''unzipped'' in
                  case mkdir_error w unzipDest of
                    Some e \<Rightarrow> (Throws e, tbl)
                  | None \<Rightarrow>
                      (case extract_result w zipPath of
                         Inl e \<Rightarrow> (Throws e, tbl)
                       | Inr extracted \<Rightarrow>
                           (case write_error w (j_import_id j) Done of
                              Some e \<Rightarrow> (Throws e, tbl)
                            | None \<Rightarrow>
                                (Returns,
                                 classify_and_finalize (clock w (j_import_id j)) (j_import_id j)
                                   unzipDest extracted tbl))))))"

text \<open>
  Lines 63 to 70, the branch \<^verbatim>\<open>if (!url)\<close>: the job is written \<^verbatim>\<open>error\<close> with the
  fixed message, and \<^verbatim>\<open>continue\<close> goes to the next job. The \<^verbatim>\<open>UPDATE\<close> is not
  inside any \<^verbatim>\<open>try\<close> but the outer one.
\<close>

definition lookup_miss :: "world \<Rightarrow> job \<Rightarrow> import_table \<Rightarrow> exec \<times> import_table" where
  "lookup_miss w j tbl =
     (case write_error w (j_import_id j) Error of
        Some e \<Rightarrow> (Throws e, tbl)
      | None \<Rightarrow> (Returns, set_error (clock w (j_import_id j)) (j_import_id j) url_not_found tbl))"

text \<open>
  One pass of the loop body of lines 61 to 122 for the job \<open>j\<close>. \<^verbatim>\<open>getUrl\<close> and the
  first \<^verbatim>\<open>mkdir\<close> stand before the \<^verbatim>\<open>try\<close>, and the \<^verbatim>\<open>UPDATE\<close> of the
  \<^verbatim>\<open>catch\<close> block is outside it as well: what they throw leaves the loop over the
  batch. \<^verbatim>\<open>if (!url)\<close> holds for \<^verbatim>\<open>null\<close> and for the empty string.
\<close>

definition process_job :: "world \<Rightarrow> string \<Rightarrow> job \<Rightarrow> import_table \<Rightarrow> exec \<times> import_table" where
  "process_job w base_dir j tbl =
     (case getUrl w (j_distribuidora_nome j) (j_ano j) of
        Inl e \<Rightarrow> (Throws e, tbl)
      | Inr None \<Rightarrow> lookup_miss w j tbl
      | Inr (Some u) \<Rightarrow>
          if u = [] then lookup_miss w j tbl
          else
            (let destDir = path_join (path_join base_dir (j_distribuidora_nome j)) (string_of_int (j_ano j)) in
             case mkdir_error w destDir of
               Some e \<Rightarrow> (Throws e, tbl)
             | None \<Rightarrow>
                 (case try_download_extract w j u destDir tbl of
                    (Throws e, tbl') \<Rightarrow>
                      (case write_error w (j_import_id j) Error of
                         Some e' \<Rightarrow> (Throws e', tbl')
                       | None \<Rightarrow> (Returns, set_error (clock w (j_import_id j)) (j_import_id j) e tbl'))
                  | (r, tbl') \<Rightarrow> (r, tbl'))))"

text \<open>
  The loop \<^verbatim>\<open>for (const j of jobs)\<close> of line 61: an exception, or an \<^verbatim>\<open>await\<close>
  that never resumes, ends it before the jobs that remain.
\<close>

fun process_jobs :: "world \<Rightarrow> string \<Rightarrow> job list \<Rightarrow> import_table \<Rightarrow> exec \<times> import_table" where
  "process_jobs w base_dir [] tbl = (Returns, tbl)"
| "process_jobs w base_dir (j # js) tbl =
     (case process_job w base_dir j tbl of
        (Returns, tbl') \<Rightarrow> process_jobs w base_dir js tbl'
      | (r, tbl') \<Rightarrow> (r, tbl'))"

section \<open>The worker loop (importWorker.ts, lines 25 to 129)\<close>

text \<open>
  How one pass of \<^verbatim>\<open>while (true)\<close> ends: after the three-second sleep of an empty
  claim, after the last job of the batch, in the \<^verbatim>\<open>catch\<close> of line 123, with the
  exception of \<^verbatim>\<open>pool.connect()\<close>, or not at all. \<^verbatim>\<open>pool.connect()\<close> of line 27
  stands before the \<^verbatim>\<open>try\<close>: when it rejects, the exception leaves
  \<^verbatim>\<open>loop()\<close> and there is no further pass. The \<^verbatim>\<open>catch\<close> sends \<^verbatim>\<open>ROLLBACK\<close> through \<^verbatim>\<open>pool.query\<close>, which runs it
  on a pooled connection other than \<^verbatim>\<open>client\<close> (that one is checked out): it ends no
  transaction and changes neither the table nor the client's transaction block. Then
  \<^verbatim>\<open>finally\<close> gives the client back to the pool.
\<close>

datatype pass = Slept | Processed | Caught | Crashed | Hung

definition loop_pass :: "world \<Rightarrow> nat \<Rightarrow> string \<Rightarrow> session \<Rightarrow> import_table \<Rightarrow> pass \<times> session \<times> import_table" where
  "loop_pass w batch base_dir sess tbl =
     (case connect_error w of
        Some e \<Rightarrow> (Crashed, sess, tbl)
      | None \<Rightarrow>
          (case claim_batch (stmt_fails w) (locked_rows w) batch (txn_now w) sess tbl of
             (ClaimFailed, sess', tbl') \<Rightarrow> (Caught, sess', tbl')
           | (NothingQueued, sess', tbl') \<Rightarrow> (Slept, sess', tbl')
           | (Claimed jobs, sess', tbl') \<Rightarrow>
               (case process_jobs w base_dir jobs tbl' of
                  (Returns, tbl'') \<Rightarrow> (Processed, sess', tbl'')
                | (Throws e, tbl'') \<Rightarrow> (Caught, sess', tbl'')
                | (Never, tbl'') \<Rightarrow> (Hung, sess', tbl''))))"

text \<open>
  The first \<open>n\<close> passes of the loop, pass \<open>k\<close> in the world \<open>ws k\<close>: the list of how
  they ended. The pool keeps its idle connections in a stack, so \<^verbatim>\<open>pool.connect()\<close>
  hands the next pass the client the previous pass released last. After a pass that
  hangs or ends with the exception of \<^verbatim>\<open>pool.connect()\<close> there is no further pass.
\<close>

fun loop :: "nat \<Rightarrow> (nat \<Rightarrow> world) \<Rightarrow> nat \<Rightarrow> string \<Rightarrow> session \<Rightarrow> import_table \<Rightarrow> pass list \<times> session \<times> import_table" where
  "loop 0 ws batch base_dir sess tbl = ([], sess, tbl)"
| "loop (Suc n) ws batch base_dir sess tbl =
     (case loop_pass (ws 0) batch base_dir sess tbl of
        (p, sess', tbl') \<Rightarrow>
          if p = Hung \<or> p = Crashed then ([p], sess', tbl')
          else
            (case loop n (\<lambda>k. ws (Suc k)) batch base_dir sess' tbl' of
               (ps, sess'', tbl'') \<Rightarrow> (p # ps, sess'', tbl'')))"


section \<open>Workers running side by side\<close>

text \<open>
  Several processes run the loop against the same table. A step of the system is one
  step of one worker \<open>w\<close>:
  \<^item> it sends the claiming \<^verbatim>\<open>SELECT\<close>, which passes over the rows the open
    transactions of the other workers have locked, and now holds a lock on each row it
    got (an empty result is committed at once and holds nothing);
  \<^item> its transaction commits: the rows it holds become \<^verbatim>\<open>running\<close> for everyone, the
    locks go, and the jobs are its batch;
  \<^item> its transaction fails: the locks go and the table stays as it was;
  \<^item> it processes the first job left of its batch, as \<open>process_job\<close> does in some
    world; an exception drops the rest of the batch, and a worker that hangs keeps its
    batch and writes nothing.
  \<open>selected\<close> is what each worker's open transaction holds, \<open>batch_left\<close> the claimed jobs
  it has not processed yet, and \<open>claimed\<close> every job identifier it claimed so far.
\<close>

record system =
  table :: import_table
  selected :: "nat \<Rightarrow> job list"
  batch_left :: "nat \<Rightarrow> job list"
  claimed :: "nat \<Rightarrow> string set"

definition job_ids :: "job list \<Rightarrow> string set" where
  "job_ids js = set (map j_import_id js)"

definition locked_by_others :: "system \<Rightarrow> nat \<Rightarrow> string set" where
  "locked_by_others s w = (\<Union>v\<in>{v. v \<noteq> w}. job_ids (selected s v))"

definition mark_jobs :: "timestamp \<Rightarrow> job list \<Rightarrow> import_table \<Rightarrow> import_table" where
  "mark_jobs now js tbl = fold (\<lambda>j view. mark_running now (j_import_id j) view) js tbl"

definition after_job :: "exec \<Rightarrow> job list \<Rightarrow> job list" where
  "after_job r js = (case r of Returns \<Rightarrow> tl js | Throws e \<Rightarrow> [] | Never \<Rightarrow> js)"

inductive step :: "nat \<Rightarrow> string \<Rightarrow> system \<Rightarrow> system \<Rightarrow> bool"
  for batch :: nat and base_dir :: string where
  select: "selected s w = [] \<Longrightarrow> batch_left s w = [] \<Longrightarrow>
     step batch base_dir s
       (s\<lparr>selected := (selected s)(w := select_queued (locked_by_others s w) batch (table s))\<rparr>)"
| commit: "selected s w = js \<Longrightarrow> js \<noteq> [] \<Longrightarrow>
     step batch base_dir s
       (s\<lparr>table := mark_jobs now js (table s),
          selected := (selected s)(w := []),
          batch_left := (batch_left s)(w := js),
          claimed := (claimed s)(w := claimed s w \<union> job_ids js)\<rparr>)"
| abort: "selected s w \<noteq> [] \<Longrightarrow>
     step batch base_dir s (s\<lparr>selected := (selected s)(w := [])\<rparr>)"
| work: "batch_left s w = j # js \<Longrightarrow> process_job wd base_dir j (table s) = (r, tbl') \<Longrightarrow>
     step batch base_dir s
       (s\<lparr>table := tbl', batch_left := (batch_left s)(w := after_job r (j # js))\<rparr>)"

definition initial :: "system \<Rightarrow> bool" where
  "initial s \<longleftrightarrow>
     distinct (map import_id (table s)) \<and>
     (\<forall>w. selected s w = [] \<and> batch_left s w = [] \<and> claimed s w = {})"

text \<open>The status of the job with a given identifier, if the table has it.\<close>

definition status_of :: "import_table \<Rightarrow> string \<Rightarrow> status option" where
  "status_of tbl i = map_option status (find (\<lambda>r. import_id r = i) tbl)"

text \<open>The transitions of the state machine, and standing still.\<close>

fun allowed :: "status \<Rightarrow> status \<Rightarrow> bool" where
  "allowed Queued Running = True"
| "allowed Running Done = True"
| "allowed Running Error = True"
| "allowed a b = (a = b)"

text \<open>
  What holds in every state the workers can reach from a table with distinct identifiers:
  a row held by an open claim is still \<^verbatim>\<open>queued\<close>, a job left in a batch is
  \<^verbatim>\<open>running\<close>, a job once claimed is no longer \<^verbatim>\<open>queued\<close>, and no two workers
  hold or have claimed the same job.
\<close>

definition invariant :: "system \<Rightarrow> bool" where
  "invariant s \<longleftrightarrow>
     distinct (map import_id (table s))
   \<and> (\<forall>w. distinct (map j_import_id (selected s w)))
   \<and> (\<forall>w. distinct (map j_import_id (batch_left s w)))
   \<and> (\<forall>w. \<forall>i\<in>job_ids (selected s w). status_of (table s) i = Some Queued)
   \<and> (\<forall>w. \<forall>i\<in>job_ids (batch_left s w). status_of (table s) i = Some Running)
   \<and> (\<forall>w. job_ids (batch_left s w) \<subseteq> claimed s w)
   \<and> (\<forall>w. \<forall>i\<in>claimed s w. status_of (table s) i \<in> {Some Running, Some Done, Some Error})
   \<and> (\<forall>w v. w \<noteq> v \<longrightarrow> job_ids (selected s w) \<inter> job_ids (selected s v) = {})
   \<and> (\<forall>w v. w \<noteq> v \<longrightarrow> claimed s w \<inter> claimed s v = {})
   \<and> (\<forall>w. selected s w = [] \<or> batch_left s w = [])"

section \<open>The enqueue handler (route.ts, POST)\<close>

text \<open>
  The request body as \<^verbatim>\<open>req.json()\<close> returns it (a body that is not JSON makes
  \<^verbatim>\<open>req.json()\<close> itself reject, before any line of the handler that is modelled
  here). Numbers are the whole numbers; an object is the list of its members in the order
  of the text.
\<close>

datatype json = JNull | JBool bool | JNum int | JStr string | JArr "json list" | JObj "(string \<times> json) list"

text \<open>
  Reading a member while destructuring: \<open>None\<close> is \<^verbatim>\<open>undefined\<close>. Of members with
  the same name the parser keeps the last. Arrays, strings, numbers and booleans have no
  member called \<^verbatim>\<open>distribuidoras\<close> or \<^verbatim>\<open>anos\<close>.
\<close>

fun json_member :: "string \<Rightarrow> json \<Rightarrow> json option" where
  "json_member k (JObj kvs) = map_of (rev kvs) k"
| "json_member k v = None"

text \<open>\<^verbatim>\<open>!Array.isArray(x) || !x.length\<close>\<close>

fun not_a_selection :: "json option \<Rightarrow> bool" where
  "not_a_selection (Some (JArr xs)) = (xs = [])"
| "not_a_selection v = True"

text \<open>The elements of a value that passed that test.\<close>

fun elements :: "json option \<Rightarrow> json list" where
  "elements (Some (JArr xs)) = xs"
| "elements v = []"

datatype failure = TypeError | StoreError string | OutsideModel

datatype reply = Reply nat json

datatype sql = CatalogQuery | InsertQuery

text \<open>The message of line 13 (invalid selection), as its UTF-8 bytes.\<close>

definition selecao_invalida :: string where
  "selecao_invalida =
     ''Sele'' @ [char_of (0xC3::nat), char_of (0xA7::nat), char_of (0xC3::nat), char_of (0xA3::nat)] @
     ''o inv'' @ [char_of (0xC3::nat), char_of (0xA1::nat)] @ ''lida''"

text \<open>
  The two bind arrays of the catalogue query. The handler is called with an array of
  distributor names and an array of years (\<^verbatim>\<open>apiImportar(distribuidoras: string[],
  anos: number[])\<close>); how the driver and the server convert elements of other kinds is
  not part of this model.
\<close>

fun names_of :: "json list \<Rightarrow> string list option" where
  "names_of [] = Some []"
| "names_of (JStr n # xs) = map_option ((#) n) (names_of xs)"
| "names_of (x # xs) = None"

fun years_of :: "json list \<Rightarrow> int list option" where
  "years_of [] = Some []"
| "years_of (JNum y # xs) = map_option ((#) y) (years_of xs)"
| "years_of (x # xs) = None"

text \<open>
  \<^verbatim>\<open>
  SELECT id, distribuidora, ano, url, title FROM dataset_url_normalized
  WHERE distribuidora = ANY($1) AND ano = ANY($2)
  ORDER BY distribuidora, ano;
  \<close>
\<close>

definition catalog_query :: "dataset_url list \<Rightarrow> string list \<Rightarrow> int list \<Rightarrow> dataset_url list" where
  "catalog_query cat names years =
     sort_key (\<lambda>c. (distribuidora c, cat_ano c))
       (filter (\<lambda>c. distribuidora c \<in> set names \<and> cat_ano c \<in> set years) cat)"

text \<open>A bind value of a parametrised statement.\<close>

datatype sqlval = VNull | VInt int | VStr string

text \<open>
  Lines 34 to 54: for the catalogue row \<open>r\<close> at index \<open>i\<close> the handler pushes twelve
  values and one tuple of placeholders \<^verbatim>\<open>$base+1\<close> to \<^verbatim>\<open>$base+11\<close> with
  \<^verbatim>\<open>base = i * 12\<close>. \<open>uuid i\<close> is the \<^verbatim>\<open>randomUUID()\<close> of that round.
\<close>

definition pushed_values :: "string \<Rightarrow> dataset_url \<Rightarrow> sqlval list" where
  "pushed_values importId r =
     [VStr importId, VNull, VInt (cat_ano r), VNull, VStr ''queued'', VInt 0,
      VNull, VNull, VNull, VNull, VStr (distribuidora r), VInt (cat_id r)]"

definition placeholder_tuple :: "nat \<Rightarrow> nat list" where
  "placeholder_tuple i = (let base = i * 12 in map (\<lambda>k. base + k) [1 ..< 12])"

fun build_values :: "(nat \<Rightarrow> string) \<Rightarrow> nat \<Rightarrow> dataset_url list \<Rightarrow> sqlval list" where
  "build_values uuid i [] = []"
| "build_values uuid i (r # rs) = pushed_values (uuid i) r @ build_values uuid (Suc i) rs"

fun build_placeholders :: "nat \<Rightarrow> dataset_url list \<Rightarrow> nat list list" where
  "build_placeholders i [] = []"
| "build_placeholders i (r # rs) = placeholder_tuple i # build_placeholders (Suc i) rs"

text \<open>
  What PostgreSQL does with the \<^verbatim>\<open>INSERT\<close> the driver sends as a parametrised
  statement. The statement has as many parameters as its highest placeholder; each of
  them must occur in the text for its type to be known, and the bind message must
  supply exactly that many values: the placeholders that occur are \<open>1\<close> to the number
  of values supplied. Otherwise the statement is refused and nothing is inserted.
\<close>

definition bind_accepted :: "nat list list \<Rightarrow> sqlval list \<Rightarrow> bool" where
  "bind_accepted tuples vals \<longleftrightarrow> set (concat tuples) = {1 .. length vals}"

definition status_of_text :: "string \<Rightarrow> status option" where
  "status_of_text t =
     (if t = ''queued'' then Some Queued else if t = ''running'' then Some Running
      else if t = ''done'' then Some Done else if t = ''error'' then Some Error else None)"

text \<open>
  A bind value read as a column of the table: text and whole-number columns, the
  nullable ones, and the two nullable timestamps. \<open>None\<close> when the value does not
  have the type of the column.
\<close>

fun text_col :: "sqlval \<Rightarrow> string option" where
  "text_col (VStr t) = Some t"
| "text_col v = None"

fun int_col :: "sqlval \<Rightarrow> int option" where
  "int_col (VInt n) = Some n"
| "int_col v = None"

fun null_text_col :: "sqlval \<Rightarrow> string option option" where
  "null_text_col VNull = Some None"
| "null_text_col (VStr t) = Some (Some t)"
| "null_text_col v = None"

fun null_int_col :: "sqlval \<Rightarrow> int option option" where
  "null_int_col VNull = Some None"
| "null_int_col (VInt n) = Some (Some n)"
| "null_int_col v = None"

fun null_time_col :: "sqlval \<Rightarrow> timestamp option option" where
  "null_time_col VNull = Some None"
| "null_time_col (VInt n) = (if 0 \<le> n then Some (Some (nat n)) else None)"
| "null_time_col v = None"

text \<open>
  One tuple of the \<^verbatim>\<open>VALUES\<close> list as a row, the columns in the order of the
  \<^verbatim>\<open>INSERT\<close>: \<^verbatim>\<open>import_id, distribuidora_id, ano, camada, status,
  linhas_processadas, data_inicio, data_fim, observacoes, erro, distribuidora_nome\<close>.
\<close>

definition row_of_values :: "sqlval list \<Rightarrow> import_row option" where
  "row_of_values vs =
     (if length vs \<noteq> 11 then None
      else do {
        i \<leftarrow> text_col (vs ! 0);
        did \<leftarrow> null_int_col (vs ! 1);
        a \<leftarrow> int_col (vs ! 2);
        c \<leftarrow> null_text_col (vs ! 3);
        st \<leftarrow> text_col (vs ! 4);
        s \<leftarrow> status_of_text st;
        n \<leftarrow> int_col (vs ! 5);
        t0 \<leftarrow> null_time_col (vs ! 6);
        t1 \<leftarrow> null_time_col (vs ! 7);
        obs \<leftarrow> null_text_col (vs ! 8);
        e \<leftarrow> null_text_col (vs ! 9);
        d \<leftarrow> text_col (vs ! 10);
        Some \<lparr>import_id = i, distribuidora_id = did, ano = a, camada = c, status = s,
          linhas_processadas = n, data_inicio = t0, data_fim = t1, observacoes = obs,
          erro = e, distribuidora_nome = d\<rparr>
      })"

fun rows_of_tuples :: "sqlval list \<Rightarrow> nat list list \<Rightarrow> import_row list option" where
  "rows_of_tuples vals [] = Some []"
| "rows_of_tuples vals (t # ts) =
     (case row_of_values (map (\<lambda>k. vals ! (k - 1)) t) of
        None \<Rightarrow> None
      | Some r \<Rightarrow> map_option ((#) r) (rows_of_tuples vals ts))"

definition insert_query :: "nat list list \<Rightarrow> sqlval list \<Rightarrow> import_table \<Rightarrow> string + import_table" where
  "insert_query tuples vals tbl =
     (if \<not> bind_accepted tuples vals then Inl ''bind message and statement disagree on the parameters''
      else (case rows_of_tuples vals tuples of
              None \<Rightarrow> Inl ''a value does not have the type of its column''
            | Some rows \<Rightarrow> Inr (tbl @ rows)))"

text \<open>
  The handler. Its result is the reply, or the exception that leaves it, then the table,
  then the statements it sent. Destructuring \<^verbatim>\<open>null\<close> throws a
  \<^verbatim>\<open>TypeError\<close>.
\<close>

definition POST ::
  "dataset_url list \<Rightarrow> (nat \<Rightarrow> string) \<Rightarrow> json \<Rightarrow> import_table \<Rightarrow> (failure + reply) \<times> import_table \<times> sql list" where
  "POST cat uuid body tbl =
     (if body = JNull then (Inl TypeError, tbl, [])
      else
        let distribuidoras = json_member ''distribuidoras'' body; anos = json_member ''anos'' body in
        if not_a_selection distribuidoras \<or> not_a_selection anos
        then (Inr (Reply 400 (JObj [(''error'', JStr selecao_invalida)])), tbl, [])
        else
          (case names_of (elements distribuidoras) of
             None \<Rightarrow> (Inl OutsideModel, tbl, [])
           | Some names \<Rightarrow>
               (case years_of (elements anos) of
                  None \<Rightarrow> (Inl OutsideModel, tbl, [])
                | Some years \<Rightarrow>
                    (let rows = catalog_query cat names years in
                     if rows = [] then (Inr (Reply 200 (JObj [(''enfileirados'', JNum 0)])), tbl, [CatalogQuery])
                     else
                       (case insert_query (build_placeholders 0 rows) (build_values uuid 0 rows) tbl of
                          Inl e \<Rightarrow> (Inl (StoreError e), tbl, [CatalogQuery, InsertQuery])
                        | Inr tbl' \<Rightarrow>
                            (Inr (Reply 200 (JObj [(''enfileirados'', JNum (int (length rows)))])),
                             tbl', [CatalogQuery, InsertQuery]))))))"

section \<open>The status handler (route.ts, GET)\<close>

text \<open>
  \<^verbatim>\<open>
  SELECT import_id, distribuidora_nome, ano, camada, status,
         linhas_processadas, data_inicio, data_fim, erro, observacoes
  FROM import_status
  ORDER BY COALESCE(data_inicio, now()) DESC
  LIMIT 200;
  \<close>
  A row of the reply has the ten columns of the select list.
\<close>

record status_item =
  s_import_id :: string
  s_distribuidora_nome :: string
  s_ano :: int
  s_camada :: "string option"
  s_status :: status
  s_linhas_processadas :: int
  s_data_inicio :: "timestamp option"
  s_data_fim :: "timestamp option"
  s_erro :: "string option"
  s_observacoes :: "string option"

definition select_list :: "import_row \<Rightarrow> status_item" where
  "select_list r =
     \<lparr>s_import_id = import_id r, s_distribuidora_nome = distribuidora_nome r, s_ano = ano r,
      s_camada = camada r, s_status = status r, s_linhas_processadas = linhas_processadas r,
      s_data_inicio = data_inicio r, s_data_fim = data_fim r, s_erro = erro r,
      s_observacoes = observacoes r\<rparr>"

definition start_key :: "timestamp \<Rightarrow> import_row \<Rightarrow> timestamp" where
  "start_key now r = (case data_inicio r of Some t \<Rightarrow> t | None \<Rightarrow> now)"

definition item_key :: "timestamp \<Rightarrow> status_item \<Rightarrow> timestamp" where
  "item_key now v = (case s_data_inicio v of Some t \<Rightarrow> t | None \<Rightarrow> now)"

definition GET :: "timestamp \<Rightarrow> import_table \<Rightarrow> status_item list" where
  "GET now tbl = map select_list (take 200 (rev (sort_key (start_key now) tbl)))"

section \<open>Example data\<close>

text \<open>A job in progress that already carries a layer.\<close>

definition job_ucmt :: import_row where
  "job_ucmt = \<lparr>import_id = ''j1'', distribuidora_id = None, ano = 2024, camada = Some ''UCMT'',
     status = Running, linhas_processadas = 0, data_inicio = Some 5, data_fim = None,
     observacoes = None, erro = None, distribuidora_nome = ''ENEL''\<rparr>"

text \<open>
  A catalogue with one entry, a world in which no call fails and the download succeeds,
  the same world with the catalogue unreachable, a freshly enqueued row, and a claimed
  job that has a catalogue entry.
\<close>

definition cat_example :: "dataset_url list" where
  "cat_example =
     [\<lparr>cat_id = 7, distribuidora = ''ENEL'', cat_ano = 2022,
       url = Some ''https://dados.example/enel_2022.zip'', title = Some ''ENEL 2022''\<rparr>]"

definition world_ok :: world where
  "world_ok =
     \<lparr>connect_error = None, stmt_fails = (\<lambda>k. False), locked_rows = {}, txn_now = 100,
      catalog = cat_example,
      catalog_error = (\<lambda>n a. None), mkdir_error = (\<lambda>p. None),
      fetch_result = (\<lambda>u. Inr \<lparr>res_ok = True, res_status = 200, res_body = True\<rparr>),
      pipeline_error = (\<lambda>p. None),
      extract_result = (\<lambda>p. Inr [File ''export_UCBT_2024.dat'']),
      write_error = (\<lambda>i s. None), clock = (\<lambda>i. 200)\<rparr>"

definition queued_row :: "string \<Rightarrow> string \<Rightarrow> int \<Rightarrow> import_row" where
  "queued_row i d a =
     \<lparr>import_id = i, distribuidora_id = None, ano = a, camada = None, status = Queued,
      linhas_processadas = 0, data_inicio = None, data_fim = None, observacoes = None,
      erro = None, distribuidora_nome = d\<rparr>"

definition job_enel :: job where
  "job_enel = \<lparr>j_import_id = ''a'', j_distribuidora_nome = ''ENEL'', j_ano = 2022\<rparr>"

definition world_lookup_down :: world where
  "world_lookup_down = world_ok\<lparr>catalog_error := (\<lambda>n a. Some ''connection refused'')\<rparr>"

text \<open>Identifiers for enqueued rows, and a request that selects the catalogue's entry.\<close>

definition uuid_example :: "nat \<Rightarrow> string" where
  "uuid_example n = ''uuid-'' @ string_of_nat n"

definition selection_body :: json where
  "selection_body = JObj [(''distribuidoras'', JArr [JStr ''ENEL'']), (''anos'', JArr [JNum 2022])]"

text \<open>
  Three enqueued rows, and a world whose server refuses the fourth statement of the
  pass, the second \<^verbatim>\<open>UPDATE\<close> of a claim of two jobs.
\<close>

definition three_queued :: import_table where
  "three_queued = [queued_row ''b'' ''CEMIG'' 2023, queued_row ''a'' ''ENEL'' 2022, queued_row ''c'' ''COPEL'' 2022]"

definition world_update_refused :: world where
  "world_update_refused = world_ok\<lparr>stmt_fails := (\<lambda>k. k = 3)\<rparr>"

text \<open>
  The worlds of successive passes when only the first pass meets that refusal; a world in
  which the pool cannot connect, and the worlds of successive passes when only the first
  pass meets it.
\<close>

definition worlds_one_refusal :: "nat \<Rightarrow> world" where
  "worlds_one_refusal k = (if k = 0 then world_update_refused else world_ok)"

definition world_no_connection :: world where
  "world_no_connection = world_ok\<lparr>connect_error := Some ''connect ECONNREFUSED''\<rparr>"

definition worlds_one_outage :: "nat \<Rightarrow> world" where
  "worlds_one_outage k = (if k = 0 then world_no_connection else world_ok)"

text \<open>
  The world in which no call fails, with a catalogue entry for the job that carries
  \<^verbatim>\<open>UCMT\<close>; its archive extracts to the single file \<^verbatim>\<open>export_UCBT_2024.dat\<close>.
\<close>

definition world_enel_2024 :: world where
  "world_enel_2024 = world_ok\<lparr>catalog :=
     [\<lparr>cat_id = 9, distribuidora = ''ENEL'', cat_ano = 2024,
       url = Some ''https://dados.example/enel_2024.zip'', title = Some ''ENEL 2024''\<rparr>]\<rparr>"

text \<open>
  Two workers and two enqueued jobs: the table before any claim; worker 0 has sent its
  \<^verbatim>\<open>SELECT\<close> with a batch size of one; worker 1 has sent its own while worker 0
  still holds its row; worker 0 has committed instead.
\<close>

definition job_cemig :: job where
  "job_cemig = \<lparr>j_import_id = ''b'', j_distribuidora_nome = ''CEMIG'', j_ano = 2023\<rparr>"

definition sys0 :: system where
  "sys0 = \<lparr>table = [queued_row ''a'' ''ENEL'' 2022, queued_row ''b'' ''CEMIG'' 2023],
     selected = (\<lambda>w. []), batch_left = (\<lambda>w. []), claimed = (\<lambda>w. {})\<rparr>"

definition sys_one_selected :: system where
  "sys_one_selected = sys0\<lparr>selected := (selected sys0)(0 := [job_enel])\<rparr>"

definition sys_two_selected :: system where
  "sys_two_selected = sys_one_selected\<lparr>selected := (selected sys_one_selected)(1 := [job_cemig])\<rparr>"

definition sys_one_running :: system where
  "sys_one_running =
     sys_one_selected\<lparr>table := mark_jobs 100 [job_enel] (table sys_one_selected),
       selected := (selected sys_one_selected)(0 := []),
       batch_left := (batch_left sys_one_selected)(0 := [job_enel]),
       claimed := (claimed sys_one_selected)(0 := claimed sys_one_selected 0 \<union> job_ids [job_enel])\<rparr>"

text \<open>A row claimed at a given time.\<close>

definition started_row :: "string \<Rightarrow> timestamp \<Rightarrow> import_row" where
  "started_row i t = running_row t (queued_row i ''ENEL'' 2022)"

section \<open>Properties of the layer inference\<close>





lemma match_here_Some:
  "match_here alt s = Some m \<Longrightarrow> map canon m = map canon alt \<and> prefix m s"
  by (auto simp: match_here_def take_is_prefix split: if_splits)

lemma prefix_iff_take: "prefix xs ys \<longleftrightarrow> length xs \<le> length ys \<and> take (length xs) ys = xs"
proof
  assume "prefix xs ys"
  then obtain zs where "ys = xs @ zs" by (auto simp: prefix_def)
  then show "length xs \<le> length ys \<and> take (length xs) ys = xs" by simp
next
  assume "length xs \<le> length ys \<and> take (length xs) ys = xs"
  then have "xs = take (length xs) ys" by simp
  then show "prefix xs ys" using take_is_prefix [of "length xs" ys] by simp
qed

lemma match_here_None_iff:
  "match_here alt s = None \<longleftrightarrow> \<not> prefix (map canon alt) (map canon s)"
  by (simp add: match_here_def prefix_iff_take take_map)

lemma match_here_Some_prefix:
  "match_here alt s = Some m \<Longrightarrow> prefix (map canon alt) (map canon s)"
  using match_here_None_iff [of alt s] by simp

lemma match_alternatives_None_iff:
  "match_alternatives alts s = None \<longleftrightarrow> (\<forall>alt\<in>set alts. \<not> prefix (map canon alt) (map canon s))"
  by (induction alts) (auto simp: match_here_None_iff dest: match_here_Some_prefix split: option.splits)

lemma match_alternatives_Some_prefix:
  "match_alternatives alts s = Some m \<Longrightarrow> \<exists>alt\<in>set alts. prefix (map canon alt) (map canon s)"
  using match_alternatives_None_iff [of alts s] by auto

lemma match_alternatives_Some:
  "match_alternatives alts s = Some m \<Longrightarrow> \<exists>alt\<in>set alts. map canon m = map canon alt \<and> prefix m s"
  by (induction alts) (auto dest: match_here_Some split: option.splits)

lemma regex_exec_None_iff:
  "regex_exec alts s = None \<longleftrightarrow> (\<forall>alt\<in>set alts. \<not> sublist (map canon alt) (map canon s))"
proof (induction s)
  case Nil
  show ?case by (auto simp: match_alternatives_None_iff)
next
  case (Cons c cs)
  show ?case
  proof (cases "match_alternatives alts (c # cs)")
    case None
    then have "regex_exec alts (c # cs) = regex_exec alts cs" by simp
    moreover from None have "\<forall>alt\<in>set alts. \<not> prefix (map canon alt) (map canon (c # cs))"
      by (simp only: match_alternatives_None_iff)
    ultimately show ?thesis
      using Cons.IH by (auto simp: sublist_Cons_right)
  next
    case (Some m)
    from match_alternatives_Some_prefix [OF Some]
    obtain alt where "alt \<in> set alts" "prefix (map canon alt) (map canon (c # cs))"
      by blast
    then have "\<exists>alt\<in>set alts. sublist (map canon alt) (map canon (c # cs))"
      using sublist_Cons_right by blast
    with Some show ?thesis by simp
  qed
qed

lemma regex_exec_Some:
  "regex_exec alts s = Some m \<Longrightarrow> \<exists>alt\<in>set alts. map canon m = map canon alt \<and> sublist m s"
proof (induction s)
  case Nil
  then show ?case by (auto dest!: match_alternatives_Some)
next
  case (Cons c cs)
  show ?case
  proof (cases "match_alternatives alts (c # cs)")
    case None
    with Cons.prems have "regex_exec alts cs = Some m" by simp
    from Cons.IH [OF this] show ?thesis
      by (auto simp: sublist_Cons_right)
  next
    case (Some m')
    with Cons.prems have "m' = m" by simp
    with match_alternatives_Some [OF Some] show ?thesis
      by (auto simp: sublist_Cons_right)
  qed
qed


lemma layer_codes_upper: "c \<in> set layer_codes \<Longrightarrow> map canon c = c"
  by (auto simp: layer_codes_def canon_def)

lemma find_first_split:
  "\<forall>f\<in>set pre. \<not> P f \<Longrightarrow> P hit \<Longrightarrow> find P (pre @ hit # post) = Some hit"
  by (induction pre) auto

lemma regex_test_iff:
  "regex_test layer_codes f \<longleftrightarrow> (\<exists>c\<in>set layer_codes. sublist c (toUpperCase f))"
proof -
  have "regex_test layer_codes f \<longleftrightarrow> (\<exists>c\<in>set layer_codes. sublist (map canon c) (map canon f))"
    by (simp add: regex_test_def regex_exec_None_iff)
  then show ?thesis by (simp add: layer_codes_upper toUpperCase_def)
qed

lemma infer_camada_no_match:
  assumes "\<forall>f\<in>set files. \<forall>c\<in>set layer_codes. \<not> sublist c (toUpperCase f)"
  shows "infer_camada files = None"
proof -
  have "\<forall>f\<in>set files. \<not> regex_test layer_codes f"
    using assms by (simp add: regex_test_iff)
  then have "find (regex_test layer_codes) files = None"
    by (simp add: find_None_iff)
  then show ?thesis by (simp add: infer_camada_def)
qed

lemma infer_camada_first_match:
  assumes pre: "\<forall>f\<in>set pre. \<forall>c\<in>set layer_codes. \<not> sublist c (toUpperCase f)"
    and hit: "\<exists>c\<in>set layer_codes. sublist c (toUpperCase hit)"
  shows "\<exists>c\<in>set layer_codes. sublist c (toUpperCase hit) \<and> infer_camada (pre @ hit # post) = Some c"
proof -
  have t: "regex_test layer_codes hit" using hit by (simp add: regex_test_iff)
  have "\<forall>f\<in>set pre. \<not> regex_test layer_codes f" using pre by (simp add: regex_test_iff)
  then have f: "find (regex_test layer_codes) (pre @ hit # post) = Some hit"
    using t by (rule find_first_split)
  from t obtain m where m: "regex_exec layer_codes hit = Some m"
    by (auto simp: regex_test_def)
  from regex_exec_Some [OF m] obtain c where c: "c \<in> set layer_codes" "map canon m = map canon c" "sublist m hit"
    by blast
  have ne: "hit \<noteq> []"
  proof
    assume "hit = []"
    with c(3) have "m = []" by simp
    with c(2) have "c = []" by simp
    with c(1) show False by (simp add: layer_codes_def)
  qed
  have up: "toUpperCase m = c" using c(1,2) by (simp add: toUpperCase_def layer_codes_upper)
  have "sublist (map canon m) (map canon hit)" using c(3) by (rule map_mono_sublist)
  then have sub: "sublist c (toUpperCase hit)" using up by (simp add: toUpperCase_def)
  have "infer_camada (pre @ hit # post) = Some c"
    using f m ne up by (simp add: infer_camada_def)
  with c(1) sub show ?thesis by blast
qed

lemma set_done_length [simp]: "length (set_done now i inferred d tbl) = length tbl"
  by (simp add: set_done_def update_where_id_def)

lemma set_done_camada_None:
  "map camada (set_done now i None d tbl) = map camada tbl"
  by (simp add: set_done_def update_where_id_def done_row_def coalesce_def)

lemma set_done_camada_Some:
  "k < length tbl \<Longrightarrow> import_id (tbl ! k) = i \<Longrightarrow>
   camada (set_done now i (Some c) d tbl ! k) = Some c"
  by (simp add: set_done_def update_where_id_def done_row_def coalesce_def)


text \<open>
  Lines 96 to 113 taken alone, as they would run if the worker reached them. The layer is
  inferred from the names \<^verbatim>\<open>readdir\<close> lists, that is from the
  top level of the extraction directory alone: two extractions with the same top-level
  names are finalized alike, whatever their directories contain. When no listed name has
  one of the four codes as a substring, letter case aside, the \<^verbatim>\<open>camada\<close> column of
  every row stays as it was. Otherwise the first listed name that has one decides: the
  job's \<^verbatim>\<open>camada\<close> becomes a code of the vocabulary that occurs in that name. A job
  stored with \<^verbatim>\<open>UCMT\<close> keeps it when the extraction holds only \<^verbatim>\<open>LEIAME.txt\<close>, and
  gets \<^verbatim>\<open>UCBT\<close> when it holds \<^verbatim>\<open>export_UCBT_2024.dat\<close>.
\<close>

lemma layer_classification:
  "(readdir ex1 = readdir ex2 \<longrightarrow>
      classify_and_finalize now i d ex1 tbl = classify_and_finalize now i d ex2 tbl)
   \<and> ((\<forall>f\<in>set (readdir ex0). \<forall>c\<in>set layer_codes. \<not> sublist c (toUpperCase f)) \<longrightarrow>
        map camada (classify_and_finalize now i d ex0 tbl) = map camada tbl)
   \<and> (readdir ex3 = pre @ hit # post
        \<and> (\<forall>f\<in>set pre. \<forall>c\<in>set layer_codes. \<not> sublist c (toUpperCase f))
        \<and> (\<exists>c\<in>set layer_codes. sublist c (toUpperCase hit)) \<longrightarrow>
        (\<exists>c\<in>set layer_codes. sublist c (toUpperCase hit) \<and>
           (\<forall>k<length tbl. import_id (tbl ! k) = i \<longrightarrow>
              camada (classify_and_finalize now i d ex3 tbl ! k) = Some c)))
   \<and> map camada (classify_and_finalize now ''j1'' d [File ''LEIAME.txt''] [job_ucmt]) = [Some ''UCMT'']
   \<and> map camada (classify_and_finalize now ''j1'' d [File ''export_UCBT_2024.dat''] [job_ucmt]) = [Some ''UCBT'']"
proof (intro conjI impI)
  assume "readdir ex1 = readdir ex2"
  then show "classify_and_finalize now i d ex1 tbl = classify_and_finalize now i d ex2 tbl"
    by (simp add: classify_and_finalize_def)
next
  assume "\<forall>f\<in>set (readdir ex0). \<forall>c\<in>set layer_codes. \<not> sublist c (toUpperCase f)"
  then have "infer_camada (readdir ex0) = None" by (rule infer_camada_no_match)
  then show "map camada (classify_and_finalize now i d ex0 tbl) = map camada tbl"
    by (simp add: classify_and_finalize_def set_done_camada_None)
next
  assume a: "readdir ex3 = pre @ hit # post
        \<and> (\<forall>f\<in>set pre. \<forall>c\<in>set layer_codes. \<not> sublist c (toUpperCase f))
        \<and> (\<exists>c\<in>set layer_codes. sublist c (toUpperCase hit))"
  then obtain c where c: "c \<in> set layer_codes" "sublist c (toUpperCase hit)"
      "infer_camada (pre @ hit # post) = Some c"
    using infer_camada_first_match [of pre hit post] by blast
  have "\<forall>k<length tbl. import_id (tbl ! k) = i \<longrightarrow>
      camada (classify_and_finalize now i d ex3 tbl ! k) = Some c"
    using a c(3) by (simp add: classify_and_finalize_def set_done_camada_Some)
  with c(1,2) show "\<exists>c\<in>set layer_codes. sublist c (toUpperCase hit) \<and>
           (\<forall>k<length tbl. import_id (tbl ! k) = i \<longrightarrow>
              camada (classify_and_finalize now i d ex3 tbl ! k) = Some c)"
    by blast
next
  have "infer_camada [''LEIAME.txt''] = None" by code_simp
  then show "map camada (classify_and_finalize now ''j1'' d [File ''LEIAME.txt''] [job_ucmt]) = [Some ''UCMT'']"
    by (simp add: classify_and_finalize_def readdir_def set_done_def update_where_id_def done_row_def
        coalesce_def job_ucmt_def)
next
  have "infer_camada [''export_UCBT_2024.dat''] = Some ''UCBT''" by code_simp
  then show "map camada (classify_and_finalize now ''j1'' d [File ''export_UCBT_2024.dat''] [job_ucmt]) = [Some ''UCBT'']"
    by (simp add: classify_and_finalize_def readdir_def set_done_def update_where_id_def done_row_def
        coalesce_def job_ucmt_def)
qed

lemma layer_classification_witness:
  "classify_and_finalize 9 ''j1'' ''d'' [Dir ''docs'' [File ''UCBT.csv'']] [job_ucmt]
     = classify_and_finalize 9 ''j1'' ''d'' [Dir ''docs'' []] [job_ucmt]
   \<and> map camada (classify_and_finalize 9 ''j1'' ''d'' [File ''notes.txt''] [job_ucmt]) = map camada [job_ucmt]
   \<and> (\<exists>c. c \<in> set layer_codes \<and> sublist c (toUpperCase ''x_ucat_1.csv'') \<and>
          camada (classify_and_finalize 9 ''j1'' ''d''
            [File ''notes.txt'', File ''x_ucat_1.csv'', File ''UCMT.csv''] [job_ucmt] ! 0) = Some c)"
proof -
  have h1: "readdir [Dir ''docs'' [File ''UCBT.csv'']] = readdir [Dir ''docs'' []]"
    by (simp add: readdir_def)
  have h0: "\<forall>f\<in>set (readdir [File ''notes.txt'']). \<forall>c\<in>set layer_codes. \<not> sublist c (toUpperCase f)"
    by code_simp
  have h3: "readdir [File ''notes.txt'', File ''x_ucat_1.csv'', File ''UCMT.csv'']
          = [''notes.txt''] @ ''x_ucat_1.csv'' # [''UCMT.csv'']
        \<and> (\<forall>f\<in>set [''notes.txt'']. \<forall>c\<in>set layer_codes. \<not> sublist c (toUpperCase f))
        \<and> (\<exists>c\<in>set layer_codes. sublist c (toUpperCase ''x_ucat_1.csv''))"
    by code_simp
  have id0: "import_id ([job_ucmt] ! 0) = ''j1''" by (simp add: job_ucmt_def)
  note t = layer_classification [where ?ex1.0 = "[Dir ''docs'' [File ''UCBT.csv'']]"
      and ?ex2.0 = "[Dir ''docs'' []]" and ?ex0.0 = "[File ''notes.txt'']"
      and ?ex3.0 = "[File ''notes.txt'', File ''x_ucat_1.csv'', File ''UCMT.csv'']"
      and pre = "[''notes.txt'']" and hit = "''x_ucat_1.csv''" and post = "[''UCMT.csv'']"
      and now = 9 and i = "''j1''" and d = "''d''" and tbl = "[job_ucmt]"]
  from t h1 have c1: "classify_and_finalize 9 ''j1'' ''d'' [Dir ''docs'' [File ''UCBT.csv'']] [job_ucmt]
     = classify_and_finalize 9 ''j1'' ''d'' [Dir ''docs'' []] [job_ucmt]" by blast
  from t h0 have c2: "map camada (classify_and_finalize 9 ''j1'' ''d'' [File ''notes.txt''] [job_ucmt]) = map camada [job_ucmt]"
    by blast
  from t h3 obtain c where "c \<in> set layer_codes" "sublist c (toUpperCase ''x_ucat_1.csv'')"
    "\<forall>k<length [job_ucmt]. import_id ([job_ucmt] ! k) = ''j1'' \<longrightarrow>
              camada (classify_and_finalize 9 ''j1'' ''d''
                [File ''notes.txt'', File ''x_ucat_1.csv'', File ''UCMT.csv''] [job_ucmt] ! k) = Some c"
    by blast
  with id0 have "c \<in> set layer_codes \<and> sublist c (toUpperCase ''x_ucat_1.csv'') \<and>
          camada (classify_and_finalize 9 ''j1'' ''d''
            [File ''notes.txt'', File ''x_ucat_1.csv'', File ''UCMT.csv''] [job_ucmt] ! 0) = Some c"
    by simp
  with c1 c2 show ?thesis by blast
qed

section \<open>Properties of the claim transaction\<close>


lemma select_rows_length: "length (select_rows locked n tbl) \<le> n"
  by (simp add: select_rows_def)

lemma select_rows_subset:
  "r \<in> set (select_rows locked n tbl) \<Longrightarrow> r \<in> set tbl \<and> status r = Queued \<and> import_id r \<notin> locked"
  by (auto simp: select_rows_def dest!: in_set_takeD)

lemma select_rows_sorted: "sorted (map order_key (select_rows locked n tbl))"
proof -
  have "sorted (map order_key (sort_key order_key (filter (\<lambda>r. status r = Queued) tbl)))"
    by (rule sorted_sort_key)
  then have "sorted (map order_key (filter (\<lambda>r. import_id r \<notin> locked)
      (sort_key order_key (filter (\<lambda>r. status r = Queued) tbl))))"
    by (rule sorted_filter)
  then have "sorted (take n (map order_key (filter (\<lambda>r. import_id r \<notin> locked)
      (sort_key order_key (filter (\<lambda>r. status r = Queued) tbl)))))"
    by (rule sorted_wrt_take)
  then show ?thesis
    by (simp add: select_rows_def take_map)
qed

lemma order_key_le: "order_key r \<le> order_key r' \<longleftrightarrow> job_order (job_of r) (job_of r')"
  by (auto simp: order_key_def job_order_def job_of_def less_eq_prod_def)

lemma select_queued_sorted: "sorted_wrt job_order (select_queued locked n tbl)"
proof -
  have "sorted_wrt (\<lambda>r r'. order_key r \<le> order_key r') (select_rows locked n tbl)"
    using select_rows_sorted [of locked n tbl] by (simp add: sorted_map)
  then show ?thesis
    by (simp add: select_queued_def sorted_wrt_map order_key_le)
qed

lemma select_queued_Nil: "\<forall>r\<in>set tbl. status r \<noteq> Queued \<Longrightarrow> select_queued locked n tbl = []"
proof -
  assume "\<forall>r\<in>set tbl. status r \<noteq> Queued"
  then have "filter (\<lambda>r. status r = Queued) tbl = []" by (simp add: filter_empty_conv)
  then show ?thesis by (simp add: select_queued_def select_rows_def)
qed

lemma import_id_running_row [simp]: "import_id (running_row now r) = import_id r"
  by (simp add: running_row_def)

lemma running_row_idem [simp]: "running_row now (running_row now r) = running_row now r"
  by (simp add: running_row_def)

lemma mark_jobs_map:
  "mark_jobs now js tbl = map (\<lambda>r. if import_id r \<in> job_ids js then running_row now r else r) tbl"
proof (induction js arbitrary: tbl)
  case Nil
  show ?case by (simp add: mark_jobs_def job_ids_def)
next
  case (Cons j js)
  have "mark_jobs now (j # js) tbl = mark_jobs now js (mark_running now (j_import_id j) tbl)"
    by (simp add: mark_jobs_def)
  also have "\<dots> = map (\<lambda>r. if import_id r \<in> job_ids js then running_row now r else r)
      (mark_running now (j_import_id j) tbl)"
    by (rule Cons.IH)
  also have "\<dots> = map (\<lambda>r. if import_id r \<in> job_ids (j # js) then running_row now r else r) tbl"
    by (auto simp: mark_running_def update_where_id_def job_ids_def)
  finally show ?case .
qed

lemma mark_all_no_failure:
  "\<forall>k. \<not> fails k \<Longrightarrow> mark_all fails k0 now js view = Some (mark_jobs now js view)"
  by (induction js arbitrary: k0 view) (simp_all add: mark_jobs_def)

lemma mark_all_None_iff:
  "mark_all fails k0 now js view = None \<longleftrightarrow> (\<exists>k. k0 \<le> k \<and> k < k0 + length js \<and> fails k)"
proof (induction js arbitrary: k0 view)
  case Nil
  show ?case by simp
next
  case (Cons j js)
  show ?case
  proof (cases "fails k0")
    case True
    then show ?thesis by auto
  next
    case False
    have "(\<exists>k. Suc k0 \<le> k \<and> k < Suc k0 + length js \<and> fails k)
        \<longleftrightarrow> (\<exists>k. k0 \<le> k \<and> k < k0 + length (j # js) \<and> fails k)"
    proof
      assume "\<exists>k. Suc k0 \<le> k \<and> k < Suc k0 + length js \<and> fails k"
      then obtain k where "Suc k0 \<le> k" "k < Suc k0 + length js" "fails k" by blast
      then have "k0 \<le> k \<and> k < k0 + length (j # js) \<and> fails k" by simp
      then show "\<exists>k. k0 \<le> k \<and> k < k0 + length (j # js) \<and> fails k" ..
    next
      assume "\<exists>k. k0 \<le> k \<and> k < k0 + length (j # js) \<and> fails k"
      then obtain k where k: "k0 \<le> k" "k < k0 + length (j # js)" "fails k" by blast
      with False have "k \<noteq> k0" by auto
      with k have "Suc k0 \<le> k \<and> k < Suc k0 + length js \<and> fails k" by simp
      then show "\<exists>k. Suc k0 \<le> k \<and> k < Suc k0 + length js \<and> fails k" ..
    qed
    with False Cons.IH [of "Suc k0"] show ?thesis by simp
  qed
qed

lemma mark_all_Some: "mark_all fails k0 now js view = Some v \<Longrightarrow> v = mark_jobs now js view"
  by (induction js arbitrary: k0 view) (auto simp: mark_jobs_def split: if_splits)


lemma claim_batch_no_failure:
  assumes "\<forall>k. \<not> fails k"
  shows "claim_batch fails locked batch now Ready tbl =
    (let jobs = select_queued locked batch tbl in
     if jobs = [] then (NothingQueued, Ready, tbl) else (Claimed jobs, Ready, mark_jobs now jobs tbl))"
  using assms by (simp add: claim_batch_def Let_def mark_all_no_failure)

text \<open>
  Claim C2. When the pool hands out a connection and the server refuses no statement,
  the claim hands over at most
  \<open>batch\<close> jobs. Each is the projection of a row that was \<^verbatim>\<open>queued\<close> when it was
  selected, and they come ordered by year, then by distributor name. In the table
  exactly the rows with the identifier of a returned job change: they are
  \<^verbatim>\<open>running\<close>, their \<^verbatim>\<open>data_inicio\<close> is the transaction's \<^verbatim>\<open>now()\<close> and
  their \<^verbatim>\<open>erro\<close> is null. When no row is \<^verbatim>\<open>queued\<close> the result is empty; an
  empty result is not a failed claim, and the pass ends in its sleep with the table as
  it was.
\<close>

theorem claim_batch_contract:
  assumes conn: "connect_error w = None" and ok: "\<forall>k. \<not> stmt_fails w k"
  shows "\<exists>jobs tbl'.
      claim_batch (stmt_fails w) (locked_rows w) batch (txn_now w) Ready tbl
        = (if jobs = [] then NothingQueued else Claimed jobs, Ready, tbl')
    \<and> length jobs \<le> batch
    \<and> (\<forall>j\<in>set jobs. \<exists>r\<in>set tbl. status r = Queued \<and> j = job_of r)
    \<and> sorted_wrt (\<lambda>a b. j_ano a < j_ano b \<or>
          (j_ano a = j_ano b \<and> j_distribuidora_nome a \<le> j_distribuidora_nome b)) jobs
    \<and> length tbl' = length tbl
    \<and> (\<forall>k<length tbl. tbl' ! k =
          (if import_id (tbl ! k) \<in> job_ids jobs
           then (tbl ! k)\<lparr>status := Running, data_inicio := Some (txn_now w), erro := None\<rparr>
           else tbl ! k))
    \<and> ((\<forall>r\<in>set tbl. status r \<noteq> Queued) \<longrightarrow> jobs = [])
    \<and> (jobs = [] \<longrightarrow> loop_pass w batch base_dir Ready tbl = (Slept, Ready, tbl))"
proof -
  define jobs where "jobs = select_queued (locked_rows w) batch tbl"
  define tbl' where "tbl' = (if jobs = [] then tbl else mark_jobs (txn_now w) jobs tbl)"
  have c: "claim_batch (stmt_fails w) (locked_rows w) batch (txn_now w) Ready tbl
        = (if jobs = [] then NothingQueued else Claimed jobs, Ready, tbl')"
    using ok by (simp add: claim_batch_no_failure jobs_def tbl'_def Let_def)
  have len: "length jobs \<le> batch"
    by (simp add: jobs_def select_queued_def select_rows_length)
  have src: "\<forall>j\<in>set jobs. \<exists>r\<in>set tbl. status r = Queued \<and> j = job_of r"
    by (auto simp: jobs_def select_queued_def dest: select_rows_subset)
  have srt: "sorted_wrt (\<lambda>a b. j_ano a < j_ano b \<or>
          (j_ano a = j_ano b \<and> j_distribuidora_nome a \<le> j_distribuidora_nome b)) jobs"
    using select_queued_sorted [of "locked_rows w" batch tbl]
    by (simp add: jobs_def job_order_def [abs_def])
  have l: "length tbl' = length tbl"
    by (simp add: tbl'_def mark_jobs_map)
  have rows: "\<forall>k<length tbl. tbl' ! k =
          (if import_id (tbl ! k) \<in> job_ids jobs
           then (tbl ! k)\<lparr>status := Running, data_inicio := Some (txn_now w), erro := None\<rparr>
           else tbl ! k)"
    by (simp add: tbl'_def mark_jobs_map running_row_def job_ids_def)
  have none: "(\<forall>r\<in>set tbl. status r \<noteq> Queued) \<longrightarrow> jobs = []"
    by (simp add: jobs_def select_queued_Nil)
  have slept: "jobs = [] \<longrightarrow> loop_pass w batch base_dir Ready tbl = (Slept, Ready, tbl)"
    using c conn by (simp add: loop_pass_def tbl'_def)
  from c len src srt l rows none slept show ?thesis by blast
qed


text \<open>The contract at work: of three queued rows, a batch of two takes the two of 2022.\<close>

theorem claim_batch_contract_witness:
  "(\<exists>jobs tbl'.
      claim_batch (stmt_fails world_ok) (locked_rows world_ok) 2 (txn_now world_ok) Ready three_queued
        = (if jobs = [] then NothingQueued else Claimed jobs, Ready, tbl')
      \<and> length jobs \<le> 2 \<and> length tbl' = length three_queued)
   \<and> claim_batch (stmt_fails world_ok) (locked_rows world_ok) 2 (txn_now world_ok) Ready three_queued
       = (Claimed [job_of (queued_row ''c'' ''COPEL'' 2022), job_of (queued_row ''a'' ''ENEL'' 2022)], Ready,
          [queued_row ''b'' ''CEMIG'' 2023, running_row 100 (queued_row ''a'' ''ENEL'' 2022),
           running_row 100 (queued_row ''c'' ''COPEL'' 2022)])"
proof -
  have conn: "connect_error world_ok = None" by (simp add: world_ok_def)
  have ok: "\<forall>k. \<not> stmt_fails world_ok k" by (simp add: world_ok_def)
  from claim_batch_contract [OF conn ok, of 2 three_queued "''data''"]
  have "\<exists>jobs tbl'.
      claim_batch (stmt_fails world_ok) (locked_rows world_ok) 2 (txn_now world_ok) Ready three_queued
        = (if jobs = [] then NothingQueued else Claimed jobs, Ready, tbl')
      \<and> length jobs \<le> 2 \<and> length tbl' = length three_queued"
    by blast
  moreover have "claim_batch (stmt_fails world_ok) (locked_rows world_ok) 2 (txn_now world_ok) Ready three_queued
       = (Claimed [job_of (queued_row ''c'' ''COPEL'' 2022), job_of (queued_row ''a'' ''ENEL'' 2022)], Ready,
          [queued_row ''b'' ''CEMIG'' 2023, running_row 100 (queued_row ''a'' ''ENEL'' 2022),
           running_row 100 (queued_row ''c'' ''COPEL'' 2022)])"
    by code_simp
  ultimately show ?thesis by blast
qed

lemma claim_batch_table:
  "claim_batch fails locked batch now sess tbl = (out, sess', tbl') \<Longrightarrow>
     (case out of Claimed jobs \<Rightarrow> jobs = select_queued locked batch tbl \<and> jobs \<noteq> [] \<and> tbl' = mark_jobs now jobs tbl
      | _ \<Rightarrow> tbl' = tbl)"
  by (auto simp: claim_batch_def Let_def split: if_splits option.splits dest: mark_all_Some)

lemma claim_batch_refused:
  assumes k: "k \<le> 2 + length (select_queued locked batch tbl)" and f: "fails k"
  shows "\<exists>sess'. claim_batch fails locked batch now sess tbl = (ClaimFailed, sess', tbl)"
proof (cases "sess = FailedBlock \<or> fails 0 \<or> fails 1")
  case True
  then show ?thesis by (auto simp: claim_batch_def)
next
  case False
  define jobs where "jobs = select_queued locked batch tbl"
  have k2: "2 \<le> k"
  proof (rule ccontr)
    assume "\<not> 2 \<le> k"
    then have "k = 0 \<or> k = 1" by arith
    with False f show False by auto
  qed
  show ?thesis
  proof (cases "jobs = []")
    case True
    with k k2 have "k = 2" by (simp add: jobs_def)
    with f False True show ?thesis by (simp add: claim_batch_def jobs_def)
  next
    case ne: False
    show ?thesis
    proof (cases "mark_all fails 2 now jobs tbl")
      case None
      with False ne show ?thesis by (simp add: claim_batch_def jobs_def Let_def)
    next
      case (Some view)
      then have "\<not> (\<exists>k'. 2 \<le> k' \<and> k' < 2 + length jobs \<and> fails k')"
        using mark_all_None_iff [of fails 2 now jobs tbl] by simp
      then have "\<not> (2 \<le> k \<and> k < 2 + length jobs \<and> fails k)" by blast
      with k2 f have "\<not> k < 2 + length jobs" by simp
      with k have "k = 2 + length jobs" by (simp add: jobs_def)
      with f False ne Some show ?thesis by (simp add: claim_batch_def jobs_def Let_def)
    qed
  qed
qed

text \<open>
  The claim is all or nothing. When the server refuses a statement of the claim on the
  connection the pool handed out, be it \<^verbatim>\<open>BEGIN\<close>, the
  \<^verbatim>\<open>SELECT\<close>, one of the \<^verbatim>\<open>UPDATE\<close>s or \<^verbatim>\<open>COMMIT\<close>, the claim hands no
  job to the loop and the table is exactly what it was: no row is left
  \<^verbatim>\<open>running\<close> by the attempt. The pass ends in the \<^verbatim>\<open>catch\<close> block and the loop
  goes on to its next pass.
\<close>

lemma failed_claim_is_atomic:
  assumes conn: "connect_error w = None"
    and k: "k \<le> 2 + length (select_queued (locked_rows w) batch tbl)"
    and f: "stmt_fails w k"
  shows "\<exists>sess'.
      claim_batch (stmt_fails w) (locked_rows w) batch (txn_now w) sess tbl = (ClaimFailed, sess', tbl)
    \<and> loop_pass w batch base_dir sess tbl = (Caught, sess', tbl)
    \<and> (ws 0 = w \<longrightarrow>
         fst (loop (Suc n) ws batch base_dir sess tbl)
           = Caught # fst (loop n (\<lambda>k. ws (Suc k)) batch base_dir sess' tbl))"
proof -
  from claim_batch_refused [of k "locked_rows w" batch tbl "stmt_fails w" "txn_now w" sess, OF k f]
  obtain sess' where
    c: "claim_batch (stmt_fails w) (locked_rows w) batch (txn_now w) sess tbl = (ClaimFailed, sess', tbl)"
    by blast
  then have p: "loop_pass w batch base_dir sess tbl = (Caught, sess', tbl)"
    using conn by (simp add: loop_pass_def)
  have "ws 0 = w \<longrightarrow> fst (loop (Suc n) ws batch base_dir sess tbl)
           = Caught # fst (loop n (\<lambda>k. ws (Suc k)) batch base_dir sess' tbl)"
    using p by (simp split: prod.splits)
  with c p show ?thesis by blast
qed

text \<open>The second \<^verbatim>\<open>UPDATE\<close> of a claim of two is refused: nothing is claimed.\<close>

lemma failed_claim_is_atomic_witness:
  "(\<exists>sess'.
      claim_batch (stmt_fails world_update_refused) (locked_rows world_update_refused) 2
          (txn_now world_update_refused) Ready three_queued = (ClaimFailed, sess', three_queued)
      \<and> loop_pass world_update_refused 2 ''data'' Ready three_queued = (Caught, sess', three_queued))
   \<and> loop_pass world_update_refused 2 ''data'' Ready three_queued = (Caught, FailedBlock, three_queued)"
proof -
  have k: "3 \<le> 2 + length (select_queued (locked_rows world_update_refused) 2 three_queued)"
    by code_simp
  have f: "stmt_fails world_update_refused 3" by (simp add: world_update_refused_def)
  have conn: "connect_error world_update_refused = None"
    by (simp add: world_update_refused_def world_ok_def)
  from failed_claim_is_atomic [OF conn k f, of Ready "''data''"]
  have "\<exists>sess'.
      claim_batch (stmt_fails world_update_refused) (locked_rows world_update_refused) 2
          (txn_now world_update_refused) Ready three_queued = (ClaimFailed, sess', three_queued)
      \<and> loop_pass world_update_refused 2 ''data'' Ready three_queued = (Caught, sess', three_queued)"
    by blast
  moreover have "loop_pass world_update_refused 2 ''data'' Ready three_queued = (Caught, FailedBlock, three_queued)"
    by code_simp
  ultimately show ?thesis by blast
qed

text \<open>
  The \<^verbatim>\<open>ROLLBACK\<close> of the \<^verbatim>\<open>catch\<close> block does not reach the client, so a
  client released inside a failed transaction block is still inside it when a later
  pass gets it from the pool; that pass ends in the \<^verbatim>\<open>catch\<close> block at
  \<^verbatim>\<open>BEGIN\<close>, with the table untouched.
\<close>

lemma failed_block_is_caught:
  "connect_error w = None \<Longrightarrow> loop_pass w batch base_dir FailedBlock tbl = (Caught, FailedBlock, tbl)"
  by (simp add: loop_pass_def claim_batch_def)

text \<open>Once the client is in a failed block, every pass ends in the \<^verbatim>\<open>catch\<close> block.\<close>

lemma loop_in_failed_block:
  assumes "\<forall>k. connect_error (ws k) = None"
  shows "loop n ws batch base_dir FailedBlock tbl = (replicate n Caught, FailedBlock, tbl)"
  using assms
proof (induction n arbitrary: ws)
  case 0
  show ?case by simp
next
  case (Suc n)
  have p: "loop_pass (ws 0) batch base_dir FailedBlock tbl = (Caught, FailedBlock, tbl)"
    using Suc.prems by (simp add: failed_block_is_caught)
  have "loop n (\<lambda>k. ws (Suc k)) batch base_dir FailedBlock tbl = (replicate n Caught, FailedBlock, tbl)"
    using Suc.prems by (intro Suc.IH) simp
  with p show ?case by simp
qed

text \<open>
  Claim C3, which the code does not meet. Three rows are queued and the server refuses
  the second \<^verbatim>\<open>UPDATE\<close> of the first pass, once; from the second pass on it refuses
  nothing. The table is left as it was, but the claim is never made again: the
  \<^verbatim>\<open>catch\<close> block of line 124 sends \<^verbatim>\<open>ROLLBACK\<close> through \<^verbatim>\<open>pool.query\<close>
  and not through \<^verbatim>\<open>client\<close>, the client goes back to the pool inside its failed
  transaction block, and every later pass gets it back and ends at \<^verbatim>\<open>BEGIN\<close>, however
  many passes follow, while the same store would give two jobs to a claim on a clean
  connection. And when it is \<^verbatim>\<open>pool.connect()\<close> of line 27 that fails, once, there is
  no next pass at all: the call stands before the \<^verbatim>\<open>try\<close>.
\<close>

theorem failed_claim_is_never_retried:
  "loop (Suc n) worlds_one_refusal 2 ''data'' Ready three_queued
     = (replicate (Suc n) Caught, FailedBlock, three_queued)
   \<and> fst (claim_batch (stmt_fails world_ok) (locked_rows world_ok) 2 (txn_now world_ok) Ready three_queued)
     = Claimed [job_of (queued_row ''c'' ''COPEL'' 2022), job_of (queued_row ''a'' ''ENEL'' 2022)]
   \<and> loop (Suc n) worlds_one_outage 2 ''data'' Ready three_queued = ([Crashed], Ready, three_queued)"
proof -
  have p: "loop_pass (worlds_one_refusal 0) 2 ''data'' Ready three_queued = (Caught, FailedBlock, three_queued)"
    unfolding worlds_one_refusal_def by code_simp
  have c: "\<forall>k. connect_error (worlds_one_refusal (Suc k)) = None"
    by (simp add: worlds_one_refusal_def world_ok_def)
  have "loop n (\<lambda>k. worlds_one_refusal (Suc k)) 2 ''data'' FailedBlock three_queued
      = (replicate n Caught, FailedBlock, three_queued)"
    using c by (intro loop_in_failed_block) simp
  with p have 1: "loop (Suc n) worlds_one_refusal 2 ''data'' Ready three_queued
     = (replicate (Suc n) Caught, FailedBlock, three_queued)" by simp
  have 2: "fst (claim_batch (stmt_fails world_ok) (locked_rows world_ok) 2 (txn_now world_ok) Ready three_queued)
     = Claimed [job_of (queued_row ''c'' ''COPEL'' 2022), job_of (queued_row ''a'' ''ENEL'' 2022)]"
    by code_simp
  have "loop_pass (worlds_one_outage 0) 2 ''data'' Ready three_queued = (Crashed, Ready, three_queued)"
    by (simp add: loop_pass_def worlds_one_outage_def world_no_connection_def)
  then have 3: "loop (Suc n) worlds_one_outage 2 ''data'' Ready three_queued = ([Crashed], Ready, three_queued)"
    by simp
  from 1 2 3 show ?thesis by blast
qed

section \<open>Properties of job processing\<close>

lemma download_never_settles: "await (new_Promise (download_executor x)) = Never"
  by (cases x) (simp_all add: await_def new_Promise_def download_executor_def)

lemma try_download_extract_eq:
  "try_download_extract w j u d tbl =
     (case fetch_result w u of
        Inl e \<Rightarrow> (Throws e, tbl)
      | Inr res \<Rightarrow>
          if \<not> res_ok res then (Throws (''HTTP '' @ string_of_nat (res_status res)), tbl)
          else if \<not> res_body res then (Throws ''Resposta sem corpo'', tbl)
          else (Never, tbl))"
proof (cases "fetch_result w u")
  case (Inl e)
  then show ?thesis by (simp add: try_download_extract_def)
next
  case (Inr res)
  show ?thesis
  proof (cases "res_ok res \<and> res_body res")
    case True
    with Inr show ?thesis
      by (simp add: try_download_extract_def download_never_settles)
  next
    case False
    with Inr show ?thesis
      by (auto simp: try_download_extract_def)
  qed
qed

lemma try_download_extract_table:
  assumes "try_download_extract w j u d tbl = (r, tbl')"
  shows "tbl' = tbl \<and> r \<noteq> Returns"
proof (cases "fetch_result w u")
  case (Inl e)
  with assms show ?thesis by (auto simp: try_download_extract_eq)
next
  case (Inr res)
  with assms show ?thesis
    by (cases "res_ok res"; cases "res_body res") (auto simp: try_download_extract_eq)
qed

text \<open>
  Claim C4, which the code does not meet. Whenever the catalogue gives a URL, the job's
  directory can be made and the server answers with a success status and a body,
  processing the job never returns and writes nothing: the promise around the download
  is never settled, whatever the stream does, because its executor calls neither
  \<^verbatim>\<open>resolve\<close> nor \<^verbatim>\<open>reject\<close>. The job is not finalized; its row stays
  \<^verbatim>\<open>running\<close>.
\<close>

theorem resolved_download_never_returns:
  assumes "getUrl w (j_distribuidora_nome j) (j_ano j) = Inr (Some u)" "u \<noteq> []"
    and "mkdir_error w (path_join (path_join base_dir (j_distribuidora_nome j)) (string_of_int (j_ano j))) = None"
    and "fetch_result w u = Inr res" "res_ok res" "res_body res"
  shows "process_job w base_dir j tbl = (Never, tbl)"
  using assms
  by (simp add: process_job_def try_download_extract_eq Let_def)

text \<open>A job whose download and extraction would both succeed.\<close>

theorem resolved_download_never_returns_witness:
  "process_job world_ok ''data'' job_enel [running_row 100 (queued_row ''a'' ''ENEL'' 2022)]
     = (Never, [running_row 100 (queued_row ''a'' ''ENEL'' 2022)])
   \<and> map status (snd (process_job world_ok ''data'' job_enel [running_row 100 (queued_row ''a'' ''ENEL'' 2022)]))
     = [Running]"
proof -
  have a: "getUrl world_ok (j_distribuidora_nome job_enel) (j_ano job_enel)
      = Inr (Some ''https://dados.example/enel_2022.zip'')"
    by (simp add: getUrl_def world_ok_def job_enel_def cat_example_def)
  have b: "''https://dados.example/enel_2022.zip'' \<noteq> []" by simp
  have c: "mkdir_error world_ok (path_join (path_join ''data'' (j_distribuidora_nome job_enel))
      (string_of_int (j_ano job_enel))) = None"
    by (simp add: world_ok_def)
  have d: "fetch_result world_ok ''https://dados.example/enel_2022.zip''
      = Inr \<lparr>res_ok = True, res_status = 200, res_body = True\<rparr>"
    by (simp add: world_ok_def)
  have e: "res_ok \<lparr>res_ok = True, res_status = 200, res_body = True\<rparr>" by simp
  have f: "res_body \<lparr>res_ok = True, res_status = 200, res_body = True\<rparr>" by simp
  have "process_job world_ok ''data'' job_enel [running_row 100 (queued_row ''a'' ''ENEL'' 2022)]
     = (Never, [running_row 100 (queued_row ''a'' ''ENEL'' 2022)])"
    by (rule resolved_download_never_returns [OF a b c d e f])
  then show ?thesis by (simp add: running_row_def)
qed

text \<open>
  Claim C5, which the code does not meet. A batch of one job without a catalogue entry
  (CEMIG) and one job whose download succeeds (ENEL), in a world where no call fails.
  When the ENEL job comes first the pass hangs in its download: the CEMIG job is never
  looked up and both rows stay \<^verbatim>\<open>running\<close>. When the CEMIG job comes first it
  ends in \<^verbatim>\<open>error\<close> with the lookup message, and the ENEL job hangs and stays
  \<^verbatim>\<open>running\<close>. And when the catalogue query itself rejects, the exception of the
  first job leaves the loop over the batch: the pass ends in the outer \<^verbatim>\<open>catch\<close>
  and neither row is written.
\<close>

theorem batch_jobs_are_not_isolated:
  "loop_pass world_ok 2 ''data'' Ready [queued_row ''b'' ''CEMIG'' 2023, queued_row ''a'' ''ENEL'' 2022]
     = (Hung, Ready, [running_row 100 (queued_row ''b'' ''CEMIG'' 2023),
          running_row 100 (queued_row ''a'' ''ENEL'' 2022)])
   \<and> loop_pass world_ok 2 ''data'' Ready [queued_row ''b'' ''CEMIG'' 2021, queued_row ''a'' ''ENEL'' 2022]
     = (Hung, Ready, [error_row 200 url_not_found (running_row 100 (queued_row ''b'' ''CEMIG'' 2021)),
          running_row 100 (queued_row ''a'' ''ENEL'' 2022)])
   \<and> loop_pass world_lookup_down 2 ''data'' Ready [queued_row ''b'' ''CEMIG'' 2021, queued_row ''a'' ''ENEL'' 2022]
     = (Caught, Ready, [running_row 100 (queued_row ''b'' ''CEMIG'' 2021),
          running_row 100 (queued_row ''a'' ''ENEL'' 2022)])"
  by code_simp

section \<open>Properties of workers running side by side\<close>

lemma find_id_map:
  assumes "\<And>r. import_id (g r) = import_id r"
  shows "find (\<lambda>r. import_id r = k) (map g tbl) = map_option g (find (\<lambda>r. import_id r = k) tbl)"
  using assms by (induction tbl) simp_all

lemma find_id_Some: "find (\<lambda>r. import_id r = k) tbl = Some r \<Longrightarrow> import_id r = k"
  by (induction tbl) (auto split: if_splits)

lemma find_id_distinct:
  "distinct (map import_id tbl) \<Longrightarrow> r \<in> set tbl \<Longrightarrow> find (\<lambda>x. import_id x = import_id r) tbl = Some r"
  by (induction tbl) (auto simp: image_iff)

lemma status_of_update:
  assumes "\<And>r. import_id (f r) = import_id r"
  shows "status_of (update_where_id i f tbl) k =
    (if k = i then map_option (\<lambda>r. status (f r)) (find (\<lambda>r. import_id r = k) tbl) else status_of tbl k)"
proof -
  have g: "\<And>r. import_id (if import_id r = i then f r else r) = import_id r"
    using assms by simp
  have "find (\<lambda>r. import_id r = k) (update_where_id i f tbl)
      = map_option (\<lambda>r. if import_id r = i then f r else r) (find (\<lambda>r. import_id r = k) tbl)"
    unfolding update_where_id_def by (rule find_id_map) (rule g)
  then show ?thesis
    by (cases "find (\<lambda>r. import_id r = k) tbl") (auto simp: status_of_def dest: find_id_Some)
qed

lemma ids_update [simp]:
  "(\<And>r. import_id (f r) = import_id r) \<Longrightarrow> map import_id (update_where_id i f tbl) = map import_id tbl"
  by (simp add: update_where_id_def)

lemma import_id_error_row [simp]: "import_id (error_row now msg r) = import_id r"
  by (simp add: error_row_def)

lemma ids_mark_jobs [simp]: "map import_id (mark_jobs now js tbl) = map import_id tbl"
  by (simp add: mark_jobs_map)

lemma status_of_mark_jobs:
  "status_of (mark_jobs now js tbl) k =
     (if k \<in> job_ids js then map_option (\<lambda>_. Running) (status_of tbl k) else status_of tbl k)"
proof -
  have "find (\<lambda>r. import_id r = k) (mark_jobs now js tbl)
      = map_option (\<lambda>r. if import_id r \<in> job_ids js then running_row now r else r)
          (find (\<lambda>r. import_id r = k) tbl)"
    unfolding mark_jobs_map by (rule find_id_map) simp
  then show ?thesis
    by (cases "find (\<lambda>r. import_id r = k) tbl")
      (auto simp: status_of_def running_row_def dest: find_id_Some)
qed

lemma status_of_set_error:
  "status_of (set_error now i msg tbl) k =
     (if k = i then map_option (\<lambda>_. Error) (status_of tbl k) else status_of tbl k)"
  by (simp add: set_error_def status_of_update)
    (simp add: status_of_def error_row_def option.map_comp comp_def)

lemma job_ids_select:
  "job_ids (select_queued locked n tbl) = import_id ` set (select_rows locked n tbl)"
  by (auto simp: job_ids_def select_queued_def job_of_def)

lemma select_queued_ids:
  assumes "distinct (map import_id tbl)" "i \<in> job_ids (select_queued locked n tbl)"
  shows "status_of tbl i = Some Queued \<and> i \<notin> locked"
proof -
  from assms(2) obtain r where r: "r \<in> set (select_rows locked n tbl)" "import_id r = i"
    by (auto simp: job_ids_select)
  from select_rows_subset [OF r(1)] have m: "r \<in> set tbl" "status r = Queued" "import_id r \<notin> locked"
    by simp_all
  from find_id_distinct [OF assms(1) m(1)] r(2) m(2,3) show ?thesis
    by (simp add: status_of_def)
qed

lemma distinct_map_sort_key:
  "distinct (map f xs) \<Longrightarrow> distinct (map f (sort_key k xs))"
  by (simp add: distinct_map)

lemma select_queued_distinct:
  assumes "distinct (map import_id tbl)"
  shows "distinct (map j_import_id (select_queued locked n tbl))"
proof -
  have "distinct (map import_id (filter (\<lambda>r. status r = Queued) tbl))"
    using assms by (rule distinct_map_filter)
  then have "distinct (map import_id (sort_key order_key (filter (\<lambda>r. status r = Queued) tbl)))"
    by (rule distinct_map_sort_key)
  then have "distinct (map import_id (filter (\<lambda>r. import_id r \<notin> locked)
      (sort_key order_key (filter (\<lambda>r. status r = Queued) tbl))))"
    by (rule distinct_map_filter)
  then have "distinct (take n (map import_id (filter (\<lambda>r. import_id r \<notin> locked)
      (sort_key order_key (filter (\<lambda>r. status r = Queued) tbl)))))"
    by (rule distinct_take)
  moreover have "map j_import_id (select_queued locked n tbl) = map import_id (select_rows locked n tbl)"
    by (simp add: select_queued_def job_of_def comp_def)
  ultimately show ?thesis by (simp add: select_rows_def take_map)
qed


lemma lookup_miss_effect:
  assumes "lookup_miss w j tbl = (r, tbl')"
  shows "tbl' = tbl \<or> (r = Returns \<and> (\<exists>now msg. tbl' = set_error now (j_import_id j) msg tbl))"
  using assms by (cases "write_error w (j_import_id j) Error") (auto simp: lookup_miss_def)

lemma process_job_effect:
  assumes "process_job w base_dir j tbl = (r, tbl')"
  shows "tbl' = tbl \<or> (r = Returns \<and> (\<exists>now msg. tbl' = set_error now (j_import_id j) msg tbl))"
proof (cases "getUrl w (j_distribuidora_nome j) (j_ano j)")
  case (Inl e)
  with assms show ?thesis by (simp add: process_job_def)
next
  case (Inr found)
  show ?thesis
  proof (cases found)
    case None
    with Inr assms have "lookup_miss w j tbl = (r, tbl')" by (simp add: process_job_def)
    then show ?thesis by (rule lookup_miss_effect)
  next
    case (Some u)
    show ?thesis
    proof (cases "u = []")
      case True
      with Some Inr assms have "lookup_miss w j tbl = (r, tbl')" by (simp add: process_job_def)
      then show ?thesis by (rule lookup_miss_effect)
    next
      case False
      define destDir where
        "destDir = path_join (path_join base_dir (j_distribuidora_nome j)) (string_of_int (j_ano j))"
      have pj: "process_job w base_dir j tbl =
          (case mkdir_error w destDir of
             Some e \<Rightarrow> (Throws e, tbl)
           | None \<Rightarrow>
               (case try_download_extract w j u destDir tbl of
                  (Throws e, tbl') \<Rightarrow>
                    (case write_error w (j_import_id j) Error of
                       Some e' \<Rightarrow> (Throws e', tbl')
                     | None \<Rightarrow> (Returns, set_error (clock w (j_import_id j)) (j_import_id j) e tbl'))
                | (r, tbl') \<Rightarrow> (r, tbl')))"
        using Inr Some False
        by (simp add: process_job_def destDir_def Let_def cong: option.case_cong)
      show ?thesis
      proof (cases "mkdir_error w destDir")
        case (Some e)
        with pj assms show ?thesis by simp
      next
        case None
        obtain r0 t0 where t: "try_download_extract w j u destDir tbl = (r0, t0)"
          by (cases "try_download_extract w j u destDir tbl")
        from try_download_extract_table [OF t] have t0: "t0 = tbl" "r0 \<noteq> Returns" by simp_all
        show ?thesis
        proof (cases r0)
          case Returns
          with t0 show ?thesis by simp
        next
          case (Throws e)
          with None pj assms t t0 show ?thesis
            by (cases "write_error w (j_import_id j) Error") auto
        next
          case Never
          with None pj assms t t0 show ?thesis by auto
        qed
      qed
    qed
  qed
qed

text \<open>No run of the job processing writes \<^verbatim>\<open>done\<close>.\<close>

lemma process_job_writes_no_done:
  assumes "process_job w base_dir j tbl = (r, tbl')" and "status_of tbl' i = Some Done"
  shows "status_of tbl i = Some Done"
proof -
  from process_job_effect [OF assms(1)] show ?thesis
  proof
    assume "tbl' = tbl"
    with assms(2) show ?thesis by simp
  next
    assume "r = Returns \<and> (\<exists>now msg. tbl' = set_error now (j_import_id j) msg tbl)"
    then obtain now msg where "tbl' = set_error now (j_import_id j) msg tbl" by blast
    with assms(2) show ?thesis
      by (cases "status_of tbl i") (auto simp: status_of_set_error split: if_splits)
  qed
qed

lemma camada_set_error: "map camada (set_error now i msg tbl) = map camada tbl"
  by (simp add: set_error_def update_where_id_def error_row_def)

text \<open>
  Claim C6, which the code does not meet. Whatever the world, processing a job leaves the
  \<^verbatim>\<open>camada\<close> column of every row as it was: the only write the worker ever reaches
  is the one to \<^verbatim>\<open>error\<close>, since the download promise before the classification
  never settles. So a stored \<^verbatim>\<open>UCMT\<close> is indeed kept, but for the job stored with
  \<^verbatim>\<open>UCMT\<close> whose archive extracts to \<^verbatim>\<open>export_UCBT_2024.dat\<close> the worker hangs,
  the row is unchanged and its layer is still \<^verbatim>\<open>UCMT\<close>, not \<^verbatim>\<open>UCBT\<close>.
\<close>

theorem worker_never_writes_the_layer:
  "map camada (snd (process_job w base_dir j tbl)) = map camada tbl
   \<and> extract_result world_enel_2024 ''data/ENEL/2024/dataset_2024.zip'' = Inr [File ''export_UCBT_2024.dat'']
   \<and> process_job world_enel_2024 ''data'' (job_of job_ucmt) [job_ucmt] = (Never, [job_ucmt])
   \<and> map camada (snd (process_job world_enel_2024 ''data'' (job_of job_ucmt) [job_ucmt])) = [Some ''UCMT'']"
proof -
  obtain r tbl' where pj: "process_job w base_dir j tbl = (r, tbl')"
    by (cases "process_job w base_dir j tbl")
  from process_job_effect [OF pj] have "map camada tbl' = map camada tbl"
    by (auto simp: camada_set_error)
  with pj have 1: "map camada (snd (process_job w base_dir j tbl)) = map camada tbl" by simp
  have 2: "extract_result world_enel_2024 ''data/ENEL/2024/dataset_2024.zip'' = Inr [File ''export_UCBT_2024.dat'']"
    by (simp add: world_enel_2024_def world_ok_def)
  have 3: "process_job world_enel_2024 ''data'' (job_of job_ucmt) [job_ucmt] = (Never, [job_ucmt])"
    by code_simp
  from 3 have 4: "map camada (snd (process_job world_enel_2024 ''data'' (job_of job_ucmt) [job_ucmt])) = [Some ''UCMT'']"
    by (simp add: job_ucmt_def)
  from 1 2 3 4 show ?thesis by blast
qed

lemma invariantI:
  assumes "distinct (map import_id (table s))"
    and "\<And>w. distinct (map j_import_id (selected s w))"
    and "\<And>w. distinct (map j_import_id (batch_left s w))"
    and "\<And>w i. i \<in> job_ids (selected s w) \<Longrightarrow> status_of (table s) i = Some Queued"
    and "\<And>w i. i \<in> job_ids (batch_left s w) \<Longrightarrow> status_of (table s) i = Some Running"
    and "\<And>w. job_ids (batch_left s w) \<subseteq> claimed s w"
    and "\<And>w i. i \<in> claimed s w \<Longrightarrow> status_of (table s) i \<in> {Some Running, Some Done, Some Error}"
    and "\<And>w v. w \<noteq> v \<Longrightarrow> job_ids (selected s w) \<inter> job_ids (selected s v) = {}"
    and "\<And>w v. w \<noteq> v \<Longrightarrow> claimed s w \<inter> claimed s v = {}"
    and "\<And>w. selected s w = [] \<or> batch_left s w = []"
  shows "invariant s"
  unfolding invariant_def using assms by simp

lemma invariantD:
  assumes "invariant s"
  shows "distinct (map import_id (table s))"
    and "distinct (map j_import_id (selected s w))"
    and "distinct (map j_import_id (batch_left s w))"
    and "i \<in> job_ids (selected s w) \<Longrightarrow> status_of (table s) i = Some Queued"
    and "i \<in> job_ids (batch_left s w) \<Longrightarrow> status_of (table s) i = Some Running"
    and "job_ids (batch_left s w) \<subseteq> claimed s w"
    and "i \<in> claimed s w \<Longrightarrow> status_of (table s) i \<in> {Some Running, Some Done, Some Error}"
    and "w \<noteq> v \<Longrightarrow> job_ids (selected s w) \<inter> job_ids (selected s v) = {}"
    and "w \<noteq> v \<Longrightarrow> claimed s w \<inter> claimed s v = {}"
    and "selected s w = [] \<or> batch_left s w = []"
proof -
  from assms have a1: "distinct (map import_id (table s))"
    and a2: "\<forall>w. distinct (map j_import_id (selected s w))"
    and a3: "\<forall>w. distinct (map j_import_id (batch_left s w))"
    and a4: "\<forall>w. \<forall>i\<in>job_ids (selected s w). status_of (table s) i = Some Queued"
    and a5: "\<forall>w. \<forall>i\<in>job_ids (batch_left s w). status_of (table s) i = Some Running"
    and a6: "\<forall>w. job_ids (batch_left s w) \<subseteq> claimed s w"
    and a7: "\<forall>w. \<forall>i\<in>claimed s w. status_of (table s) i \<in> {Some Running, Some Done, Some Error}"
    and a8: "\<forall>w v. w \<noteq> v \<longrightarrow> job_ids (selected s w) \<inter> job_ids (selected s v) = {}"
    and a9: "\<forall>w v. w \<noteq> v \<longrightarrow> claimed s w \<inter> claimed s v = {}"
    and a10: "\<forall>w. selected s w = [] \<or> batch_left s w = []"
    unfolding invariant_def by simp_all
  show "distinct (map import_id (table s))" by (rule a1)
  show "distinct (map j_import_id (selected s w))" using a2 by simp
  show "distinct (map j_import_id (batch_left s w))" using a3 by simp
  show "i \<in> job_ids (selected s w) \<Longrightarrow> status_of (table s) i = Some Queued" using a4 by simp
  show "i \<in> job_ids (batch_left s w) \<Longrightarrow> status_of (table s) i = Some Running" using a5 by simp
  show "job_ids (batch_left s w) \<subseteq> claimed s w" using a6 by simp
  show "i \<in> claimed s w \<Longrightarrow> status_of (table s) i \<in> {Some Running, Some Done, Some Error}"
    using a7 by simp
  show "w \<noteq> v \<Longrightarrow> job_ids (selected s w) \<inter> job_ids (selected s v) = {}" using a8 by simp
  show "w \<noteq> v \<Longrightarrow> claimed s w \<inter> claimed s v = {}" using a9 by simp
  show "selected s w = [] \<or> batch_left s w = []" using a10 by simp
qed

lemma initial_invariant: "initial s \<Longrightarrow> invariant s"
  by (rule invariantI) (simp_all add: initial_def job_ids_def)

lemma job_ids_Nil [simp]: "job_ids [] = {}"
  by (simp add: job_ids_def)

lemma job_ids_Cons [simp]: "job_ids (j # js) = insert (j_import_id j) (job_ids js)"
  by (simp add: job_ids_def)

lemma invariant_select:
  assumes inv: "invariant s" and sel: "selected s w = []" and bl: "batch_left s w = []"
  shows "invariant (s\<lparr>selected := (selected s)(w := select_queued (locked_by_others s w) batch (table s))\<rparr>)"
    (is "invariant ?s'")
proof (rule invariantI)
  let ?J = "select_queued (locked_by_others s w) batch (table s)"
  note d = invariantD [OF inv]
  show "distinct (map import_id (table ?s'))" using d(1) by simp
  show "distinct (map j_import_id (selected ?s' v))" for v
    using d(1) d(2) [of v] by (simp add: select_queued_distinct)
  show "distinct (map j_import_id (batch_left ?s' v))" for v
    using d(3) [of v] by simp
  show "status_of (table ?s') i = Some Queued" if "i \<in> job_ids (selected ?s' v)" for v i
    using that d(4) [of i v] select_queued_ids [OF d(1), of i "locked_by_others s w" batch]
    by (cases "v = w") simp_all
  show "status_of (table ?s') i = Some Running" if "i \<in> job_ids (batch_left ?s' v)" for v i
    using that d(5) [of i v] by simp
  show "job_ids (batch_left ?s' v) \<subseteq> claimed ?s' v" for v
    using d(6) [of v] by simp
  show "status_of (table ?s') i \<in> {Some Running, Some Done, Some Error}" if "i \<in> claimed ?s' v" for v i
    using that d(7) [of i v] by simp
  show "job_ids (selected ?s' x) \<inter> job_ids (selected ?s' y) = {}" if "x \<noteq> y" for x y
  proof -
    have out: "job_ids ?J \<inter> job_ids (selected s v) = {}" if "v \<noteq> w" for v
    proof -
      have "job_ids (selected s v) \<subseteq> locked_by_others s w"
        using that by (auto simp: locked_by_others_def)
      moreover have "job_ids ?J \<inter> locked_by_others s w = {}"
        using select_queued_ids [OF d(1), of _ "locked_by_others s w" batch] by blast
      ultimately show ?thesis by blast
    qed
    show ?thesis
    proof (cases "x = w")
      case True
      with that out [of y] show ?thesis by simp
    next
      case False
      show ?thesis
      proof (cases "y = w")
        case True
        with False out [of x] show ?thesis by (simp add: Int_commute)
      next
        case False
        with \<open>x \<noteq> w\<close> that d(8) [of x y] show ?thesis by simp
      qed
    qed
  qed
  show "claimed ?s' x \<inter> claimed ?s' y = {}" if "x \<noteq> y" for x y
    using that d(9) [of x y] by simp
  show "selected ?s' v = [] \<or> batch_left ?s' v = []" for v
    using d(10) [of v] bl by (cases "v = w") simp_all
qed

lemma invariant_abort:
  assumes inv: "invariant s"
  shows "invariant (s\<lparr>selected := (selected s)(w := [])\<rparr>)" (is "invariant ?s'")
proof (rule invariantI)
  note d = invariantD [OF inv]
  show "distinct (map import_id (table ?s'))" using d(1) by simp
  show "distinct (map j_import_id (selected ?s' v))" for v
    using d(2) [of v] by simp
  show "distinct (map j_import_id (batch_left ?s' v))" for v
    using d(3) [of v] by simp
  show "status_of (table ?s') i = Some Queued" if "i \<in> job_ids (selected ?s' v)" for v i
    using that d(4) [of i v] by (cases "v = w") simp_all
  show "status_of (table ?s') i = Some Running" if "i \<in> job_ids (batch_left ?s' v)" for v i
    using that d(5) [of i v] by simp
  show "job_ids (batch_left ?s' v) \<subseteq> claimed ?s' v" for v
    using d(6) [of v] by simp
  show "status_of (table ?s') i \<in> {Some Running, Some Done, Some Error}" if "i \<in> claimed ?s' v" for v i
    using that d(7) [of i v] by simp
  show "job_ids (selected ?s' x) \<inter> job_ids (selected ?s' y) = {}" if "x \<noteq> y" for x y
    using that d(8) [of x y] by simp
  show "claimed ?s' x \<inter> claimed ?s' y = {}" if "x \<noteq> y" for x y
    using that d(9) [of x y] by simp
  show "selected ?s' v = [] \<or> batch_left ?s' v = []" for v
    using d(10) [of v] by (cases "v = w") simp_all
qed


lemma invariant_commit:
  assumes inv: "invariant s" and sel: "selected s w = js"
  shows "invariant (s\<lparr>table := mark_jobs now js (table s),
          selected := (selected s)(w := []),
          batch_left := (batch_left s)(w := js),
          claimed := (claimed s)(w := claimed s w \<union> job_ids js)\<rparr>)" (is "invariant ?s'")
proof (rule invariantI)
  note d = invariantD [OF inv]
  have q: "status_of (table s) i = Some Queued" if "i \<in> job_ids js" for i
    using that d(4) [of i w] sel by simp
  have new: "status_of (table ?s') i =
      (if i \<in> job_ids js then Some Running else status_of (table s) i)" for i
    using q [of i] by (simp add: status_of_mark_jobs)
  show "distinct (map import_id (table ?s'))" using d(1) by simp
  show "distinct (map j_import_id (selected ?s' v))" for v
    using d(2) [of v] by simp
  show "distinct (map j_import_id (batch_left ?s' v))" for v
    using d(3) [of v] d(2) [of w] sel by simp
  show "status_of (table ?s') i = Some Queued" if "i \<in> job_ids (selected ?s' v)" for v i
  proof (cases "v = w")
    case True
    with that show ?thesis by simp
  next
    case False
    with that have i: "i \<in> job_ids (selected s v)" by simp
    with d(8) [OF False] sel have "i \<notin> job_ids js" by blast
    with d(4) [OF i] show ?thesis by (simp only: new if_False)
  qed
  show "status_of (table ?s') i = Some Running" if "i \<in> job_ids (batch_left ?s' v)" for v i
  proof (cases "v = w")
    case True
    with that have "i \<in> job_ids js" by simp
    then show ?thesis by (simp only: new if_True)
  next
    case False
    with that have "i \<in> job_ids (batch_left s v)" by simp
    from d(5) [OF this] show ?thesis by (simp only: new split: if_split) simp
  qed
  show "job_ids (batch_left ?s' v) \<subseteq> claimed ?s' v" for v
    using d(6) [of v] by auto
  show "status_of (table ?s') i \<in> {Some Running, Some Done, Some Error}" if "i \<in> claimed ?s' v" for v i
  proof (cases "i \<in> job_ids js")
    case True
    then show ?thesis by (simp only: new if_True) simp
  next
    case False
    with that have "i \<in> claimed s v" by (cases "v = w") simp_all
    from d(7) [OF this] False show ?thesis by (simp only: new if_False)
  qed
  show "job_ids (selected ?s' x) \<inter> job_ids (selected ?s' y) = {}" if "x \<noteq> y" for x y
    using that d(8) [of x y] by simp
  show "claimed ?s' x \<inter> claimed ?s' y = {}" if "x \<noteq> y" for x y
  proof -
    have out: "job_ids js \<inter> claimed s v = {}" for v
    proof -
      have "i \<notin> claimed s v" if "i \<in> job_ids js" for i
        using q [OF that] d(7) [of i v] by auto
      then show ?thesis by blast
    qed
    show ?thesis
      using that d(9) [of x y] out [of x] out [of y] by auto
  qed
  show "selected ?s' v = [] \<or> batch_left ?s' v = []" for v
    using d(10) [of v] by (cases "v = w") simp_all
qed

lemma after_job_sub: "set (after_job r js) \<subseteq> set js"
  by (cases r; cases js) (auto simp: after_job_def)

lemma after_job_distinct: "distinct (map f js) \<Longrightarrow> distinct (map f (after_job r js))"
  by (cases r; cases js) (auto simp: after_job_def)

lemma job_ids_after_job: "job_ids (after_job r js) \<subseteq> job_ids js"
  using after_job_sub [of r js] by (auto simp: job_ids_def)

lemma invariant_work:
  assumes inv: "invariant s" and bl: "batch_left s w = j # js"
    and pj: "process_job wd base_dir j (table s) = (r, tbl')"
  shows "invariant (s\<lparr>table := tbl', batch_left := (batch_left s)(w := after_job r (j # js))\<rparr>)"
    (is "invariant ?s'")
proof -
  note d = invariantD [OF inv]
  have jr: "status_of (table s) (j_import_id j) = Some Running"
    using d(5) [of "j_import_id j" w] bl by simp
  have jc: "j_import_id j \<in> claimed s w"
    using d(6) [of w] bl by simp
  have ids: "map import_id tbl' = map import_id (table s)"
    using process_job_effect [OF pj] by (auto simp: set_error_def)
  have st: "status_of tbl' i = status_of (table s) i" if "i \<noteq> j_import_id j" for i
    using process_job_effect [OF pj] that by (auto simp: status_of_set_error)
  have stj: "status_of tbl' (j_import_id j) \<in> {Some Running, Some Error}"
    using process_job_effect [OF pj] jr by (auto simp: status_of_set_error)
  have same: "r \<noteq> Returns \<Longrightarrow> tbl' = table s"
    using process_job_effect [OF pj] by auto
  show ?thesis
  proof (rule invariantI)
    show "distinct (map import_id (table ?s'))" using d(1) ids by simp
    show "distinct (map j_import_id (selected ?s' v))" for v
      using d(2) [of v] by simp
    show "distinct (map j_import_id (batch_left ?s' v))" for v
      using d(3) [of v] bl after_job_distinct [of j_import_id "j # js" r]
      by (cases "v = w") simp_all
    show "status_of (table ?s') i = Some Queued" if "i \<in> job_ids (selected ?s' v)" for v i
    proof -
      from that have "status_of (table s) i = Some Queued" using d(4) [of i v] by simp
      with jr have "i \<noteq> j_import_id j" by auto
      with \<open>status_of (table s) i = Some Queued\<close> show ?thesis by (simp add: st)
    qed
    show "status_of (table ?s') i = Some Running" if "i \<in> job_ids (batch_left ?s' v)" for v i
    proof (cases "v = w")
      case False
      with that have i: "i \<in> job_ids (batch_left s v)" by simp
      with d(6) [of v] have "i \<in> claimed s v" by blast
      with jc d(9) [OF False] have "i \<noteq> j_import_id j" by blast
      with d(5) [OF i] show ?thesis by (simp add: st)
    next
      case True
      with that have i: "i \<in> job_ids (after_job r (j # js))" by simp
      show ?thesis
      proof (cases r)
        case Returns
        with i have ijs: "i \<in> job_ids js" by (simp add: after_job_def)
        with d(3) [of w] bl have "i \<noteq> j_import_id j" by (auto simp: job_ids_def image_iff)
        moreover from ijs bl d(5) [of i w] have "status_of (table s) i = Some Running" by simp
        ultimately show ?thesis by (simp add: st)
      next
        case (Throws e)
        with i show ?thesis by (simp add: after_job_def)
      next
        case Never
        with same have "tbl' = table s" by simp
        moreover from i bl job_ids_after_job [of r "j # js"] d(5) [of i w]
        have "status_of (table s) i = Some Running" by auto
        ultimately show ?thesis by simp
      qed
    qed
    show "job_ids (batch_left ?s' v) \<subseteq> claimed ?s' v" for v
      using d(6) [of v] bl job_ids_after_job [of r "j # js"] by (cases "v = w") auto
    show "status_of (table ?s') i \<in> {Some Running, Some Done, Some Error}" if "i \<in> claimed ?s' v" for v i
    proof (cases "i = j_import_id j")
      case True
      with stj show ?thesis by auto
    next
      case False
      with that d(7) [of i v] show ?thesis by (simp add: st)
    qed
    show "job_ids (selected ?s' x) \<inter> job_ids (selected ?s' y) = {}" if "x \<noteq> y" for x y
      using that d(8) [of x y] by simp
    show "claimed ?s' x \<inter> claimed ?s' y = {}" if "x \<noteq> y" for x y
      using that d(9) [of x y] by simp
    show "selected ?s' v = [] \<or> batch_left ?s' v = []" for v
      using d(10) [of v] bl by (cases "v = w") auto
  qed
qed

lemma invariant_step: "step batch base_dir s s' \<Longrightarrow> invariant s \<Longrightarrow> invariant s'"
proof (induction rule: step.induct)
  case (select s w)
  then show ?case by (simp add: invariant_select)
next
  case (commit s w js now)
  then show ?case by (simp add: invariant_commit)
next
  case (abort s w)
  then show ?case by (simp add: invariant_abort)
next
  case (work s w j js wd r tbl')
  then show ?case by (simp add: invariant_work)
qed

lemma invariant_reachable:
  "(step batch base_dir)\<^sup>*\<^sup>* s0 s \<Longrightarrow> invariant s0 \<Longrightarrow> invariant s"
  by (induction rule: rtranclp_induct) (auto intro: invariant_step)


lemma allowed_refl [simp]: "allowed a a"
  by (cases a) simp_all

lemma step_transition:
  assumes st: "step batch base_dir s s'" and inv: "invariant s"
    and a: "status_of (table s) i = Some a"
  shows "\<exists>b. status_of (table s') i = Some b \<and> allowed a b"
  using st inv a
proof (induction rule: step.induct)
  case (select s w)
  then show ?case by simp
next
  case (abort s w)
  then show ?case by simp
next
  case (commit s w js now)
  note d = invariantD [OF commit.prems(1)]
  show ?case
  proof (cases "i \<in> job_ids js")
    case True
    with d(4) [of i w] commit.hyps have "status_of (table s) i = Some Queued" by simp
    with commit.prems(2) True show ?thesis by (simp add: status_of_mark_jobs)
  next
    case False
    with commit.prems(2) show ?thesis by (simp add: status_of_mark_jobs)
  qed
next
  case (work s w j js wd r tbl')
  note d = invariantD [OF work.prems(1)]
  have jr: "status_of (table s) (j_import_id j) = Some Running"
    using d(5) [of "j_import_id j" w] work.hyps(1) by simp
  from process_job_effect [OF work.hyps(2)] show ?case
  proof
    assume "tbl' = table s"
    with work.prems(2) show ?thesis by simp
  next
    assume "r = Returns \<and> (\<exists>now msg. tbl' = set_error now (j_import_id j) msg (table s))"
    then obtain now msg where t: "tbl' = set_error now (j_import_id j) msg (table s)" by blast
    show ?thesis
    proof (cases "i = j_import_id j")
      case True
      with jr work.prems(2) have "a = Running" by simp
      with True jr t show ?thesis by (simp add: status_of_set_error)
    next
      case False
      with t work.prems(2) show ?thesis by (simp add: status_of_set_error)
    qed
  qed
qed

lemma terminal_stays:
  assumes "(step batch base_dir)\<^sup>*\<^sup>* s s'" "invariant s"
    and "status_of (table s) i = Some a" "a = Done \<or> a = Error"
  shows "status_of (table s') i = Some a"
  using assms
proof (induction rule: rtranclp_induct)
  case base
  then show ?case by simp
next
  case (step y z)
  then have y: "status_of (table y) i = Some a" by simp
  have "invariant y" using step.hyps(1) step.prems(1) by (rule invariant_reachable)
  from step_transition [OF step.hyps(2) this y] obtain b where
    b: "status_of (table z) i = Some b" "allowed a b" by blast
  from b(2) step.prems(3) have "b = a" by (cases b) auto
  with b(1) show ?case by simp
qed

text \<open>
  Claim C7. Start from a table with distinct identifiers and let any number of workers
  claim and process in any interleaving. In a state so reached, one more step takes the
  status of a job either nowhere or along \<^verbatim>\<open>queued\<close> to \<^verbatim>\<open>running\<close>,
  \<^verbatim>\<open>running\<close> to \<^verbatim>\<open>done\<close> or \<^verbatim>\<open>running\<close> to \<^verbatim>\<open>error\<close>; and a job that is
  \<^verbatim>\<open>done\<close> or \<^verbatim>\<open>error\<close> has that same status after any further run.
\<close>

theorem status_transitions_monotonic:
  assumes "initial s0" and "(step batch base_dir)\<^sup>*\<^sup>* s0 s"
    and "status_of (table s) i = Some a"
  shows "(\<forall>s'. step batch base_dir s s' \<longrightarrow> (\<exists>b. status_of (table s') i = Some b \<and> allowed a b))
    \<and> (\<forall>s'. (step batch base_dir)\<^sup>*\<^sup>* s s' \<and> (a = Done \<or> a = Error) \<longrightarrow> status_of (table s') i = Some a)"
proof -
  have inv: "invariant s"
    using assms(2) initial_invariant [OF assms(1)] by (rule invariant_reachable)
  show ?thesis
    using step_transition [OF _ inv assms(3)] terminal_stays [OF _ inv assms(3)] by blast
qed

text \<open>
  Claim C1. Start from a table with distinct identifiers and let any number of workers
  claim and process in any interleaving. In every state so reached no job has been
  claimed by two workers, no two workers have the same job in their batches or in their
  open transactions, and every job left in a batch is \<^verbatim>\<open>running\<close>. A worker with
  nothing in hand can always send its \<^verbatim>\<open>SELECT\<close>, whatever the others hold: it does
  not wait for them, and the rows they have locked are not in its result.
\<close>

theorem claims_never_overlap:
  assumes "initial s0" and "(step batch base_dir)\<^sup>*\<^sup>* s0 s"
  shows "(\<forall>w v. w \<noteq> v \<longrightarrow>
            claimed s w \<inter> claimed s v = {}
          \<and> job_ids (batch_left s w) \<inter> job_ids (batch_left s v) = {}
          \<and> job_ids (selected s w) \<inter> job_ids (selected s v) = {})
    \<and> (\<forall>w. \<forall>i\<in>job_ids (batch_left s w). status_of (table s) i = Some Running)
    \<and> (\<forall>w. selected s w = [] \<and> batch_left s w = [] \<longrightarrow>
          step batch base_dir s
            (s\<lparr>selected := (selected s)(w := select_queued (locked_by_others s w) batch (table s))\<rparr>)
          \<and> job_ids (select_queued (locked_by_others s w) batch (table s)) \<inter> locked_by_others s w = {})"
proof -
  have inv: "invariant s"
    using assms(2) initial_invariant [OF assms(1)] by (rule invariant_reachable)
  note d = invariantD [OF inv]
  have 1: "\<forall>w v. w \<noteq> v \<longrightarrow>
            claimed s w \<inter> claimed s v = {}
          \<and> job_ids (batch_left s w) \<inter> job_ids (batch_left s v) = {}
          \<and> job_ids (selected s w) \<inter> job_ids (selected s v) = {}"
  proof (intro allI impI conjI)
    fix w v :: nat
    assume "w \<noteq> v"
    then show "claimed s w \<inter> claimed s v = {}" by (rule d(9))
    with d(6) [of w] d(6) [of v]
    show "job_ids (batch_left s w) \<inter> job_ids (batch_left s v) = {}" by blast
    from \<open>w \<noteq> v\<close> show "job_ids (selected s w) \<inter> job_ids (selected s v) = {}" by (rule d(8))
  qed
  have 2: "\<forall>w. \<forall>i\<in>job_ids (batch_left s w). status_of (table s) i = Some Running"
    using d(5) by blast
  have 3: "\<forall>w. selected s w = [] \<and> batch_left s w = [] \<longrightarrow>
          step batch base_dir s
            (s\<lparr>selected := (selected s)(w := select_queued (locked_by_others s w) batch (table s))\<rparr>)
          \<and> job_ids (select_queued (locked_by_others s w) batch (table s)) \<inter> locked_by_others s w = {}"
    using select_queued_ids [OF d(1)] by (auto intro: step.select)
  from 1 2 3 show ?thesis by blast
qed

text \<open>The steps between the example states.\<close>

lemma initial_sys0: "initial sys0"
  by (simp add: initial_def sys0_def queued_row_def)

lemma step_first_select: "step 1 ''data'' sys0 sys_one_selected"
proof -
  have l: "locked_by_others sys0 0 = {}"
    by (simp add: locked_by_others_def sys0_def)
  have "select_queued {} 1 [queued_row ''a'' ''ENEL'' 2022, queued_row ''b'' ''CEMIG'' 2023] = [job_enel]"
    by code_simp
  moreover have "table sys0 = [queued_row ''a'' ''ENEL'' 2022, queued_row ''b'' ''CEMIG'' 2023]"
    by (simp add: sys0_def)
  ultimately have e: "select_queued (locked_by_others sys0 0) 1 (table sys0) = [job_enel]"
    by (simp only: l)
  have "step 1 ''data'' sys0
      (sys0\<lparr>selected := (selected sys0)(0 := select_queued (locked_by_others sys0 0) 1 (table sys0))\<rparr>)"
    by (rule step.select) (simp_all add: sys0_def)
  then show ?thesis unfolding e sys_one_selected_def .
qed

lemma step_second_select: "step 1 ''data'' sys_one_selected sys_two_selected"
proof -
  have l: "locked_by_others sys_one_selected 1 = {''a''}"
    by (auto simp: locked_by_others_def sys_one_selected_def sys0_def job_enel_def split: if_splits)
  have "select_queued {''a''} 1 [queued_row ''a'' ''ENEL'' 2022, queued_row ''b'' ''CEMIG'' 2023] = [job_cemig]"
    by code_simp
  moreover have "table sys_one_selected = [queued_row ''a'' ''ENEL'' 2022, queued_row ''b'' ''CEMIG'' 2023]"
    by (simp add: sys_one_selected_def sys0_def)
  ultimately have e: "select_queued (locked_by_others sys_one_selected 1) 1 (table sys_one_selected) = [job_cemig]"
    by (simp only: l)
  have "step 1 ''data'' sys_one_selected
      (sys_one_selected\<lparr>selected := (selected sys_one_selected)
         (1 := select_queued (locked_by_others sys_one_selected 1) 1 (table sys_one_selected))\<rparr>)"
    by (rule step.select) (simp_all add: sys_one_selected_def sys0_def)
  then show ?thesis unfolding e sys_two_selected_def .
qed

lemma step_first_commit: "step 1 ''data'' sys_one_selected sys_one_running"
  unfolding sys_one_running_def
  by (rule step.commit) (simp_all add: sys_one_selected_def)

text \<open>Two workers select one after the other, the first still holding its row.\<close>

theorem claims_never_overlap_witness:
  "initial sys0 \<and> (step 1 ''data'')\<^sup>*\<^sup>* sys0 sys_two_selected
   \<and> selected sys_two_selected 0 = [job_enel] \<and> selected sys_two_selected 1 = [job_cemig]
   \<and> job_ids (selected sys_two_selected 0) \<inter> job_ids (selected sys_two_selected 1) = {}
   \<and> claimed sys_two_selected 0 \<inter> claimed sys_two_selected 1 = {}"
proof -
  have r: "(step 1 ''data'')\<^sup>*\<^sup>* sys0 sys_two_selected"
    using step_first_select step_second_select by (rule converse_rtranclp_into_rtranclp [OF _ r_into_rtranclp])
  have ne: "(0::nat) \<noteq> 1" by simp
  from claims_never_overlap [OF initial_sys0 r] ne
  have "claimed sys_two_selected 0 \<inter> claimed sys_two_selected 1 = {}
      \<and> job_ids (selected sys_two_selected 0) \<inter> job_ids (selected sys_two_selected 1) = {}"
    by blast
  moreover have "selected sys_two_selected 0 = [job_enel] \<and> selected sys_two_selected 1 = [job_cemig]"
    by (simp add: sys_two_selected_def sys_one_selected_def)
  ultimately show ?thesis using initial_sys0 r by blast
qed

text \<open>The first worker commits its claim: its job goes from queued to running.\<close>

theorem status_transitions_monotonic_witness:
  "initial sys0 \<and> (step 1 ''data'')\<^sup>*\<^sup>* sys0 sys_one_selected
   \<and> status_of (table sys_one_selected) ''a'' = Some Queued
   \<and> step 1 ''data'' sys_one_selected sys_one_running
   \<and> (\<exists>b. status_of (table sys_one_running) ''a'' = Some b \<and> allowed Queued b)
   \<and> status_of (table sys_one_running) ''a'' = Some Running"
proof -
  have r: "(step 1 ''data'')\<^sup>*\<^sup>* sys0 sys_one_selected"
    using step_first_select by blast
  have q: "status_of (table sys_one_selected) ''a'' = Some Queued"
    by (simp add: status_of_def sys_one_selected_def sys0_def queued_row_def)
  from status_transitions_monotonic [OF initial_sys0 r q] step_first_commit
  have "\<exists>b. status_of (table sys_one_running) ''a'' = Some b \<and> allowed Queued b"
    by blast
  moreover have "status_of (table sys_one_running) ''a'' = Some Running"
    by (simp add: status_of_mark_jobs sys_one_running_def q job_enel_def)
  ultimately show ?thesis using initial_sys0 r q step_first_commit by blast
qed

section \<open>Properties of the enqueue handler\<close>

lemma build_values_length: "length (build_values uuid i rows) = 12 * length rows"
  by (induction rows arbitrary: i) (simp_all add: pushed_values_def)

lemma placeholder_tuple_mod:
  assumes "k \<in> set (placeholder_tuple i)"
  shows "k mod 12 \<noteq> 0"
proof -
  from assms have "k \<in> (\<lambda>m. i * 12 + m) ` {1..<12}"
    unfolding placeholder_tuple_def Let_def set_map set_upt .
  then obtain m where m: "k = i * 12 + m" "1 \<le> m" "m < 12"
    by (elim imageE) simp
  then have "k mod 12 = m" by simp
  with m show ?thesis by simp
qed

lemma build_placeholders_mod:
  "k \<in> set (concat (build_placeholders i rows)) \<Longrightarrow> k mod 12 \<noteq> 0"
  by (induction rows arbitrary: i) (auto dest: placeholder_tuple_mod)

lemma bind_refused:
  assumes "rows \<noteq> []"
  shows "\<not> bind_accepted (build_placeholders 0 rows) (build_values uuid 0 rows)"
proof
  assume "bind_accepted (build_placeholders 0 rows) (build_values uuid 0 rows)"
  then have eq: "set (concat (build_placeholders 0 rows)) = {1 .. 12 * length rows}"
    by (simp add: bind_accepted_def build_values_length)
  from assms have "12 * length rows \<in> {1 .. 12 * length rows}" by (cases rows) simp_all
  with eq have "12 * length rows \<in> set (concat (build_placeholders 0 rows))" by simp
  from build_placeholders_mod [OF this] show False by simp
qed

lemma not_a_selection_iff:
  "not_a_selection v \<longleftrightarrow> v = None \<or> (\<forall>xs. v \<noteq> Some (JArr xs)) \<or> v = Some (JArr [])"
  by (cases v rule: not_a_selection.cases) auto

lemma elements_selection: "\<not> not_a_selection v \<Longrightarrow> v = Some (JArr (elements v)) \<and> elements v \<noteq> []"
  by (cases v rule: not_a_selection.cases) auto


text \<open>
  The tuples themselves name the right values: were the statement accepted, it would
  insert one \<^verbatim>\<open>queued\<close> row for each catalogue entry, with the entry's distributor
  and year, no layer, no timestamps and a row count of zero.
\<close>

lemma upt_1_12: "[1..<12] = [1, 2, 3, 4, 5, 6, 7, 8, 9, 10, 11::nat]"
  by (simp add: upt_rec)

lemma tuple_reads_pushed:
  assumes "length pre = i * 12"
  shows "map (\<lambda>k. (pre @ pushed_values importId r @ rest) ! (k - 1)) (placeholder_tuple i)
     = take 11 (pushed_values importId r)"
proof -
  have "(pre @ pushed_values importId r @ rest) ! (i * 12 + k - 1) = (pushed_values importId r @ rest) ! (k - 1)"
    if "1 \<le> k" for k
  proof -
    from that have "i * 12 + k - 1 = length pre + (k - 1)" using assms by simp
    then show ?thesis by (simp only: nth_append_length_plus)
  qed
  then have "map (\<lambda>k. (pre @ pushed_values importId r @ rest) ! (k - 1)) (placeholder_tuple i)
      = map (\<lambda>k. (pushed_values importId r @ rest) ! (k - 1)) [1..<12]"
    by (simp add: placeholder_tuple_def Let_def comp_def)
  also have "\<dots> = take 11 (pushed_values importId r)"
    unfolding upt_1_12 by (simp add: pushed_values_def)
  finally show ?thesis .
qed

lemma row_of_pushed:
  "row_of_values (take 11 (pushed_values importId r)) = Some (queued_row importId (distribuidora r) (cat_ano r))"
  by (simp add: pushed_values_def row_of_values_def status_of_text_def queued_row_def)

lemma rows_of_tuples_build:
  assumes "length pre = i * 12"
  shows "rows_of_tuples (pre @ build_values uuid i rows) (build_placeholders i rows)
     = Some (map (\<lambda>(k, r). queued_row (uuid k) (distribuidora r) (cat_ano r)) (enumerate i rows))"
  using assms
proof (induction rows arbitrary: i pre)
  case Nil
  show ?case by simp
next
  case (Cons r rs)
  have "length (pre @ pushed_values (uuid i) r) = Suc i * 12"
    using Cons.prems by (simp add: pushed_values_def)
  from Cons.IH [OF this]
  have rest: "rows_of_tuples (pre @ pushed_values (uuid i) r @ build_values uuid (Suc i) rs)
      (build_placeholders (Suc i) rs)
     = Some (map (\<lambda>(k, r). queued_row (uuid k) (distribuidora r) (cat_ano r)) (enumerate (Suc i) rs))"
    by simp
  show ?case
    using rest tuple_reads_pushed [OF Cons.prems, of "uuid i" r "build_values uuid (Suc i) rs"]
    by (simp add: row_of_pushed)
qed

lemma tuples_name_the_right_values:
  "rows_of_tuples (build_values uuid 0 rows) (build_placeholders 0 rows)
     = Some (map (\<lambda>(k, r). queued_row (uuid k) (distribuidora r) (cat_ano r)) (enumerate 0 rows))"
  using rows_of_tuples_build [of "[]" 0 uuid rows] by simp

text \<open>
  Claim C8, which the code does not meet. For a request with names and years that match
  at least one catalogue entry, the handler pushes twelve values for each entry and
  writes eleven placeholders, so the \<^verbatim>\<open>INSERT\<close> is refused: the handler ends in an
  exception instead of a count and the table has no new row.
\<close>

theorem enqueue_insert_is_refused:
  assumes "names_of ds = Some names" and "years_of ys = Some years"
    and "ds \<noteq> []" and "ys \<noteq> []"
    and "catalog_query cat names years \<noteq> []"
  shows "POST cat uuid (JObj [(''distribuidoras'', JArr ds), (''anos'', JArr ys)]) tbl
     = (Inl (StoreError ''bind message and statement disagree on the parameters''),
        tbl, [CatalogQuery, InsertQuery])"
  using assms bind_refused [OF assms(5), of uuid]
  by (simp add: POST_def insert_query_def Let_def)

text \<open>One distributor, one year, one matching catalogue entry.\<close>

theorem enqueue_insert_is_refused_witness:
  "POST cat_example uuid_example selection_body []
     = (Inl (StoreError ''bind message and statement disagree on the parameters''),
        [], [CatalogQuery, InsertQuery])"
proof -
  have a: "names_of [JStr ''ENEL''] = Some [''ENEL'']" by simp
  have b: "years_of [JNum 2022] = Some [2022]" by simp
  have c: "[JStr ''ENEL''] \<noteq> []" by simp
  have d: "[JNum 2022] \<noteq> []" by simp
  have e: "catalog_query cat_example [''ENEL''] [2022] \<noteq> []" by code_simp
  from enqueue_insert_is_refused [OF a b c d e, of uuid_example "[]"]
  show ?thesis by (simp add: selection_body_def)
qed

text \<open>When no catalogue entry matches, the reply is a count of zero and nothing is inserted.\<close>

lemma POST_no_match:
  assumes "names_of ds = Some names" and "years_of ys = Some years"
    and "ds \<noteq> []" and "ys \<noteq> []"
    and "catalog_query cat names years = []"
  shows "POST cat uuid (JObj [(''distribuidoras'', JArr ds), (''anos'', JArr ys)]) tbl
     = (Inr (Reply 200 (JObj [(''enfileirados'', JNum 0)])), tbl, [CatalogQuery])"
  using assms by (simp add: POST_def Let_def)

text \<open>
  Claim C10, amended. For every body other than \<^verbatim>\<open>null\<close> in which
  \<^verbatim>\<open>distribuidoras\<close> or \<^verbatim>\<open>anos\<close> is missing, is not an array or is an empty
  array, the handler replies 400 with the invalid-selection error, sends no statement to
  the store and leaves the table as it was.
\<close>

theorem invalid_selection_is_rejected:
  assumes "body \<noteq> JNull"
    and "json_member ''distribuidoras'' body = None \<or> json_member ''anos'' body = None
       \<or> (\<forall>xs. json_member ''distribuidoras'' body \<noteq> Some (JArr xs))
       \<or> (\<forall>xs. json_member ''anos'' body \<noteq> Some (JArr xs))
       \<or> json_member ''distribuidoras'' body = Some (JArr [])
       \<or> json_member ''anos'' body = Some (JArr [])"
  shows "POST cat uuid body tbl
     = (Inr (Reply 400 (JObj [(''error'', JStr selecao_invalida)])), tbl, [])"
proof -
  from assms(2) have "not_a_selection (json_member ''distribuidoras'' body)
      \<or> not_a_selection (json_member ''anos'' body)"
    by (auto simp: not_a_selection_iff)
  with assms(1) show ?thesis by (simp add: POST_def Let_def)
qed

text \<open>A body whose \<^verbatim>\<open>distribuidoras\<close> is empty and whose \<^verbatim>\<open>anos\<close> is missing.\<close>

theorem invalid_selection_is_rejected_witness:
  "POST cat_example uuid_example (JObj [(''distribuidoras'', JArr [])]) []
     = (Inr (Reply 400 (JObj [(''error'', JStr selecao_invalida)])), [], [])"
proof -
  have a: "JObj [(''distribuidoras'', JArr [])] \<noteq> JNull" by simp
  have b: "json_member ''distribuidoras'' (JObj [(''distribuidoras'', JArr [])]) = None
       \<or> json_member ''anos'' (JObj [(''distribuidoras'', JArr [])]) = None
       \<or> (\<forall>xs. json_member ''distribuidoras'' (JObj [(''distribuidoras'', JArr [])]) \<noteq> Some (JArr xs))
       \<or> (\<forall>xs. json_member ''anos'' (JObj [(''distribuidoras'', JArr [])]) \<noteq> Some (JArr xs))
       \<or> json_member ''distribuidoras'' (JObj [(''distribuidoras'', JArr [])]) = Some (JArr [])
       \<or> json_member ''anos'' (JObj [(''distribuidoras'', JArr [])]) = Some (JArr [])"
    by simp
  show ?thesis by (rule invalid_selection_is_rejected [OF a b])
qed

text \<open>
  The body \<^verbatim>\<open>null\<close> has no \<^verbatim>\<open>distribuidoras\<close>, and the handler does not reply
  400 to it: destructuring it throws.
\<close>

theorem null_body_is_not_rejected:
  "json_member ''distribuidoras'' JNull = None
   \<and> POST cat_example uuid_example JNull [] = (Inl TypeError, [], [])"
  by (simp add: POST_def)

section \<open>Properties of the status handler\<close>

lemma item_key_select_list [simp]: "item_key now (select_list r) = start_key now r"
  by (simp add: item_key_def start_key_def select_list_def)

lemma sorted_desc_rev_sort_key:
  "sorted_wrt (\<lambda>a b. k b \<le> k a) (rev (sort_key k xs))"
proof -
  have "sorted (map k (sort_key k xs))" by (rule sorted_sort_key)
  then have "sorted_wrt (\<lambda>a b. k a \<le> k b) (sort_key k xs)" by (simp add: sorted_map)
  then show ?thesis by (simp add: sorted_wrt_rev)
qed

text \<open>
  Claim C9, amended. The status read returns \<open>min 200 n\<close> of the \<open>n\<close> rows, ordered by
  start time descending where a row never started counts as started at the time of the
  read: no row left out starts later than a row returned, and a row started before the
  read never precedes a row never started. Each returned item carries ten columns of its
  row, all but \<^verbatim>\<open>distribuidora_id\<close>.
\<close>

theorem GET_recent_rows:
  "length (GET now tbl) = min 200 (length tbl)
   \<and> sorted_wrt (\<lambda>a b. item_key now b \<le> item_key now a) (GET now tbl)
   \<and> (\<exists>rows rest. GET now tbl = map select_list rows \<and> mset rows + mset rest = mset tbl
         \<and> (\<forall>r\<in>set rows. \<forall>r'\<in>set rest. start_key now r' \<le> start_key now r))
   \<and> (\<forall>i j t. i < j \<and> j < length (GET now tbl) \<and> s_data_inicio (GET now tbl ! j) = None
         \<and> s_data_inicio (GET now tbl ! i) = Some t \<longrightarrow> now \<le> t)"
proof -
  define all where "all = rev (sort_key (start_key now) tbl)"
  define rows where "rows = take 200 all"
  define rest where "rest = drop 200 all"
  have g: "GET now tbl = map select_list rows"
    by (simp add: GET_def rows_def all_def)
  have srt_all: "sorted_wrt (\<lambda>a b. start_key now b \<le> start_key now a) all"
    unfolding all_def by (rule sorted_desc_rev_sort_key)
  have "all = rows @ rest" by (simp add: rows_def rest_def)
  with srt_all have app: "sorted_wrt (\<lambda>a b. start_key now b \<le> start_key now a) (rows @ rest)"
    by simp
  then have srt_rows: "sorted_wrt (\<lambda>a b. start_key now b \<le> start_key now a) rows"
    and cut: "\<forall>r\<in>set rows. \<forall>r'\<in>set rest. start_key now r' \<le> start_key now r"
    by (simp_all add: sorted_wrt_append)
  have len: "length (GET now tbl) = min 200 (length tbl)"
    by (simp add: g rows_def all_def min.commute)
  have srt: "sorted_wrt (\<lambda>a b. item_key now b \<le> item_key now a) (GET now tbl)"
    using srt_rows by (simp add: g sorted_wrt_map)
  have ms: "mset rows + mset rest = mset tbl"
  proof -
    have "mset rows + mset rest = mset (rows @ rest)" by simp
    also have "\<dots> = mset all" using \<open>all = rows @ rest\<close> by simp
    also have "\<dots> = mset tbl" by (simp add: all_def)
    finally show ?thesis .
  qed
  have ord: "\<forall>i j t. i < j \<and> j < length (GET now tbl) \<and> s_data_inicio (GET now tbl ! j) = None
         \<and> s_data_inicio (GET now tbl ! i) = Some t \<longrightarrow> now \<le> t"
  proof (intro allI impI)
    fix i j t
    assume a: "i < j \<and> j < length (GET now tbl) \<and> s_data_inicio (GET now tbl ! j) = None
         \<and> s_data_inicio (GET now tbl ! i) = Some t"
    then have "item_key now (GET now tbl ! j) \<le> item_key now (GET now tbl ! i)"
      using srt by (simp add: sorted_wrt_iff_nth_less)
    with a show "now \<le> t" by (simp add: item_key_def)
  qed
  from len srt g ms cut ord show ?thesis by blast
qed

text \<open>Three rows, one of them never started, read at time 10.\<close>

theorem GET_recent_rows_witness:
  "length (GET 10 [started_row ''a'' 5, queued_row ''b'' ''CEMIG'' 2023, started_row ''c'' 12]) = 3
   \<and> map s_import_id (GET 10 [started_row ''a'' 5, queued_row ''b'' ''CEMIG'' 2023, started_row ''c'' 12])
       = [''c'', ''b'', ''a'']
   \<and> (10::nat) \<le> 12"
proof -
  let ?t = "[started_row ''a'' 5, queued_row ''b'' ''CEMIG'' 2023, started_row ''c'' 12]"
  note g = GET_recent_rows [of 10 ?t]
  from g have "length (GET 10 ?t) = min 200 (length ?t)" by (rule conjunct1)
  then have len: "length (GET 10 ?t) = 3" by simp
  have ids: "map s_import_id (GET 10 ?t) = [''c'', ''b'', ''a'']" by code_simp
  have h: "(0::nat) < 1 \<and> 1 < length (GET 10 ?t) \<and> s_data_inicio (GET 10 ?t ! 1) = None
      \<and> s_data_inicio (GET 10 ?t ! 0) = Some 12"
    by code_simp
  from g have "\<forall>i j t. i < j \<and> j < length (GET 10 ?t) \<and> s_data_inicio (GET 10 ?t ! j) = None
         \<and> s_data_inicio (GET 10 ?t ! i) = Some t \<longrightarrow> 10 \<le> t"
    by (elim conjE)
  then have "(0::nat) < 1 \<and> 1 < length (GET 10 ?t) \<and> s_data_inicio (GET 10 ?t ! 1) = None
      \<and> s_data_inicio (GET 10 ?t ! 0) = Some 12 \<longrightarrow> (10::nat) \<le> 12"
    by (elim allE)
  with h have "(10::nat) \<le> 12" by (rule rev_mp)
  with len ids show ?thesis by (intro conjI)
qed

text \<open>
  Two rows that differ in \<^verbatim>\<open>distribuidora_id\<close> read the same: the status read does
  not expose that column.
\<close>

theorem status_read_hides_distribuidora_id:
  "GET 10 [queued_row ''a'' ''ENEL'' 2022] = GET 10 [(queued_row ''a'' ''ENEL'' 2022)\<lparr>distribuidora_id := Some 3\<rparr>]
   \<and> queued_row ''a'' ''ENEL'' 2022 \<noteq> (queued_row ''a'' ''ENEL'' 2022)\<lparr>distribuidora_id := Some 3\<rparr>"
  by (simp add: GET_def select_list_def queued_row_def)

end
